theory Spec2Isabelle
  imports Main "HOL-Library.Word"
begin

unbundle bit_operations_syntax

section \<open>JavaScript numbers as far as the sources need them\<close>

text \<open>
  The sources compute with integers (sizes, indices, millisecond timestamps), but two of
  their expressions produce the value NaN: a subtraction whose operand is the value
  \<open>undefined\<close>, and a product with a non-number. A number is therefore an integer or NaN.
  Every comparison with NaN is false.
\<close>

datatype jsnum = Num int | NaN

fun js_sub :: "jsnum \<Rightarrow> jsnum \<Rightarrow> jsnum" where
  "js_sub (Num a) (Num b) = Num (a - b)"
| "js_sub _ _ = NaN"

fun js_add :: "jsnum \<Rightarrow> jsnum \<Rightarrow> jsnum" where
  "js_add (Num a) (Num b) = Num (a + b)"
| "js_add _ _ = NaN"

fun js_mul :: "jsnum \<Rightarrow> jsnum \<Rightarrow> jsnum" where
  "js_mul (Num a) (Num b) = Num (a * b)"
| "js_mul _ _ = NaN"

fun js_lt :: "jsnum \<Rightarrow> jsnum \<Rightarrow> bool" where
  "js_lt (Num a) (Num b) = (a < b)"
| "js_lt _ _ = False"

fun js_le :: "jsnum \<Rightarrow> jsnum \<Rightarrow> bool" where
  "js_le (Num a) (Num b) = (a \<le> b)"
| "js_le _ _ = False"

text \<open>The remainder operator \<open>%\<close> truncates towards zero; the sign follows the dividend.\<close>

definition js_rem :: "int \<Rightarrow> int \<Rightarrow> int" where
  "js_rem a b = sgn a * (\<bar>a\<bar> mod \<bar>b\<bar>)"

section \<open>collections.js: the ring-buffer Queue\<close>

text \<open>
  A slot of the buffer holds a value or is empty (\<open>None\<close>, which reads as \<open>undefined\<close>).
  The object has the fields \<open>capacity\<close>, \<open>_buffer\<close>, \<open>_head\<close> and \<open>_tail\<close>. It has no
  field named \<open>head\<close>: reading \<open>this.head\<close> gives \<open>undefined\<close>, which the subtraction
  in \<open>__length\<close> converts to NaN.
\<close>

record 'a Queue =
  capacity :: int
  buffer :: "'a option list"
  qhead :: int
  qtail :: int

text \<open>\<open>new Queue(size)\<close>, for a numeric \<open>size\<close>.\<close>

definition Queue_new :: "int \<Rightarrow> 'a Queue" where
  "Queue_new size0 =
     (let size1 = (if size0 \<le> 0 then 10 else size0)
      in \<lparr>capacity = size1, buffer = replicate (nat size1) None, qhead = 0, qtail = 0\<rparr>)"

text \<open>Reading and writing an array slot: a read out of range gives \<open>undefined\<close>, a write
  out of range extends the array.\<close>

definition js_get :: "'a option list \<Rightarrow> int \<Rightarrow> 'a option" where
  "js_get xs i = (if 0 \<le> i \<and> nat i < length xs then xs ! nat i else None)"

definition js_set :: "'a option list \<Rightarrow> int \<Rightarrow> 'a option \<Rightarrow> 'a option list" where
  "js_set xs i v =
     (if nat i < length xs then xs[nat i := v]
      else xs @ replicate (nat i - length xs) None @ [v])"

text \<open>\<open>Array.prototype.copyWithin(target, start, end)\<close> for non-negative arguments: it
  never changes the length of the array.\<close>

definition copyWithin :: "'a list \<Rightarrow> int \<Rightarrow> int \<Rightarrow> int \<Rightarrow> 'a list" where
  "copyWithin xs target start end0 =
     (let len = int (length xs);
          to = min target len;
          from = min start len;
          final = min end0 len;
          count = min (final - from) (len - to)
      in if count > 0
         then take (nat to) xs @ take (nat count) (drop (nat from) xs) @ drop (nat (to + count)) xs
         else xs)"

text \<open>The value of the property \<open>this.head\<close>, which no code defines, as a number.\<close>

definition Queue_head_property :: "'a Queue \<Rightarrow> jsnum" where
  "Queue_head_property q = NaN"

definition Queue_length :: "'a Queue \<Rightarrow> jsnum" where
  "Queue_length q =
     (let value0 = js_sub (Num (qtail q)) (Queue_head_property q)
      in if js_lt value0 (Num 0) then js_add value0 (Num (capacity q)) else value0)"

definition Queue_extend :: "'a Queue \<Rightarrow> 'a Queue" where
  "Queue_extend q =
     (let nc = capacity q * 2;
          q1 = (if qtail q < qhead q
                then (let b = (if qtail q > 0 then copyWithin (buffer q) (capacity q) 0 (qtail q)
                               else buffer q)
                      in q\<lparr>buffer := b, qtail := qtail q + capacity q\<rparr>)
                else q)
      in q1\<lparr>capacity := nc\<rparr>)"

definition Queue_add :: "'a \<Rightarrow> 'a Queue \<Rightarrow> 'a Queue" where
  "Queue_add item q =
     (let q1 = (if js_le (js_sub (Queue_length q) (Num (capacity q))) (Num 0)
                then Queue_extend q else q);
          q2 = q1\<lparr>buffer := js_set (buffer q1) (qtail q1) (Some item)\<rparr>
      in q2\<lparr>qtail := js_rem (qtail q2 + 1) (capacity q2)\<rparr>)"

text \<open>\<open>fetch\<close> returns the fetched value (\<open>None\<close> for \<open>undefined\<close>) and the new queue.\<close>

definition Queue_fetch :: "'a Queue \<Rightarrow> 'a option \<times> 'a Queue" where
  "Queue_fetch q =
     (if qhead q \<noteq> qtail q
      then (js_get (buffer q) (qhead q), q\<lparr>qhead := js_rem (qhead q + 1) (capacity q)\<rparr>)
      else (None, q))"

section \<open>collections.js and the server: LinkedList and ResponseCache\<close>

text \<open>
  A \<open>LinkedListItem\<close> is an object on the heap; the code compares items by identity
  (\<open>this._tail == item\<close>) and updates them through their neighbours' pointers. The
  model keeps the items in a store \<open>cells\<close> from references to items; \<open>null\<close> is
  \<open>None\<close>. A list object holds the two fields \<open>_head\<close> and \<open>_tail\<close>. The value of
  an item is the cache key stored by \<open>ResponseCache.stor\<close>.
\<close>

type_synonym ref = nat

record LinkedListItem =
  item_value :: string
  item_prev :: "ref option"
  item_next :: "ref option"

record LinkedList =
  ll_head :: "ref option"
  ll_tail :: "ref option"

type_synonym cells = "ref \<Rightarrow> LinkedListItem"

definition LinkedList_new :: LinkedList where
  "LinkedList_new = \<lparr>ll_head = None, ll_tail = None\<rparr>"

text \<open>\<open>tail()\<close> returns \<open>this._tail || this._head\<close>: a list of one item keeps it in
  \<open>_head\<close> with \<open>_tail\<close> null.\<close>

definition LinkedList_tail :: "LinkedList \<Rightarrow> ref option" where
  "LinkedList_tail l = (case ll_tail l of Some t \<Rightarrow> Some t | None \<Rightarrow> ll_head l)"

text \<open>
  \<open>insert(value)\<close>. Its first statement makes the item: an argument that is a
  \<open>LinkedListItem\<close> is reused with both pointers reset (\<open>LinkedList_insert_item\<close>), any
  other argument is wrapped in a new item (\<open>LinkedList_insert_value\<close>, whose reference
  \<open>fresh\<close> is the next unused one). The rest of the body, shared by both, links the item
  in front of the head.
\<close>

definition LinkedList_link_first :: "ref \<Rightarrow> cells \<times> LinkedList \<Rightarrow> cells \<times> LinkedList" where
  "LinkedList_link_first item = (\<lambda>(h, l).
     (case ll_head l of
        None \<Rightarrow> (h, l\<lparr>ll_head := Some item\<rparr>)
      | Some hd0 \<Rightarrow>
          (let h1 = h(hd0 := (h hd0)\<lparr>item_prev := Some item\<rparr>);
               h2 = h1(item := (h1 item)\<lparr>item_next := Some hd0\<rparr>);
               l1 = (if ll_tail l = None then l\<lparr>ll_tail := ll_head l\<rparr> else l)
           in (h2, l1\<lparr>ll_head := Some item\<rparr>))))"

definition LinkedList_insert_item :: "ref \<Rightarrow> cells \<times> LinkedList \<Rightarrow> cells \<times> LinkedList" where
  "LinkedList_insert_item item = (\<lambda>(h, l).
     LinkedList_link_first item (h(item := (h item)\<lparr>item_prev := None, item_next := None\<rparr>), l))"

definition LinkedList_insert_value ::
  "string \<Rightarrow> ref \<Rightarrow> cells \<times> LinkedList \<Rightarrow> cells \<times> LinkedList" where
  "LinkedList_insert_value v fresh = (\<lambda>(h, l).
     LinkedList_link_first fresh
       (h(fresh := \<lparr>item_value = v, item_prev = None, item_next = None\<rparr>), l))"

text \<open>
  \<open>remove(item)\<close> for an argument that is a \<open>LinkedListItem\<close>, one definition for each
  statement of the body, in the order of the source. Each statement reads the store left by
  the statement before it.
\<close>

definition remove_unlink_prev :: "ref \<Rightarrow> cells \<Rightarrow> cells" where
  "remove_unlink_prev item h =
     (case item_prev (h item) of
        Some p \<Rightarrow> h(p := (h p)\<lparr>item_next := item_next (h item)\<rparr>)
      | None \<Rightarrow> h)"

definition remove_unlink_next :: "ref \<Rightarrow> cells \<Rightarrow> cells" where
  "remove_unlink_next item h =
     (case item_next (h item) of
        Some n \<Rightarrow> h(n := (h n)\<lparr>item_prev := item_prev (h item)\<rparr>)
      | None \<Rightarrow> h)"

definition remove_fix_tail :: "ref \<Rightarrow> cells \<Rightarrow> LinkedList \<Rightarrow> LinkedList" where
  "remove_fix_tail item h l =
     (if ll_tail l = Some item
      then (let l' = l\<lparr>ll_tail := item_prev (h item)\<rparr>
            in if ll_tail l' = ll_head l' then l'\<lparr>ll_tail := None\<rparr> else l')
      else l)"

definition remove_fix_head :: "ref \<Rightarrow> cells \<Rightarrow> LinkedList \<Rightarrow> LinkedList" where
  "remove_fix_head item h l =
     (if ll_head l = Some item
      then (let l' = l\<lparr>ll_head := item_next (h item)\<rparr>
            in if ll_tail l' = ll_head l' then l'\<lparr>ll_tail := None\<rparr> else l')
      else l)"

definition remove_clear :: "ref \<Rightarrow> cells \<Rightarrow> cells" where
  "remove_clear item h = h(item := (h item)\<lparr>item_next := None, item_prev := None\<rparr>)"

definition LinkedList_remove :: "ref \<Rightarrow> cells \<times> LinkedList \<Rightarrow> cells \<times> LinkedList" where
  "LinkedList_remove item = (\<lambda>(h, l).
     (let h2 = remove_unlink_next item (remove_unlink_prev item h);
          l2 = remove_fix_head item h2 (remove_fix_tail item h2 l)
      in (remove_clear item h2, l2)))"

text \<open>
  The cache. \<open>'d\<close> is the type of the cached response descriptors. Sizes are byte counts
  and so integers; an expiry is a number (a millisecond timestamp, or NaN when computed from
  a non-number). \<open>_map\<close> is a map from keys to items: \<open>x instanceof ResponseCacheItem\<close>
  holds exactly when the key is bound. The key \<open>__proto__\<close>, which a JavaScript object
  treats specially, is outside the model; the server's keys all contain the character \<open>$\<close>.
  An item is put into the map only after \<open>stor\<close> has set its \<open>link\<close>, so \<open>ci_link\<close> is
  a reference.
\<close>

record 'd ResponseCacheItem =
  ci_data :: 'd
  ci_size :: int
  ci_id :: string
  ci_expire :: jsnum
  ci_link :: ref

record 'd ResponseCache =
  csize :: int
  sizeLimit :: int
  cmap :: "string \<Rightarrow> 'd ResponseCacheItem option"
  lru :: LinkedList
  cells :: cells
  fresh :: ref

definition ResponseCache_new :: "int \<Rightarrow> 'd ResponseCache" where
  "ResponseCache_new limit =
     \<lparr>csize = 0, sizeLimit = limit, cmap = Map.empty, lru = LinkedList_new,
      cells = (\<lambda>_. \<lparr>item_value = [], item_prev = None, item_next = None\<rparr>), fresh = 0\<rparr>"

definition lru_remove :: "ref \<Rightarrow> 'd ResponseCache \<Rightarrow> 'd ResponseCache" where
  "lru_remove item c =
     (let (h, l) = LinkedList_remove item (cells c, lru c) in c\<lparr>cells := h, lru := l\<rparr>)"

definition lru_insert_item :: "ref \<Rightarrow> 'd ResponseCache \<Rightarrow> 'd ResponseCache" where
  "lru_insert_item item c =
     (let (h, l) = LinkedList_insert_item item (cells c, lru c) in c\<lparr>cells := h, lru := l\<rparr>)"

definition lru_insert_value :: "string \<Rightarrow> 'd ResponseCache \<Rightarrow> ref \<times> 'd ResponseCache" where
  "lru_insert_value v c =
     (let (h, l) = LinkedList_insert_value v (fresh c) (cells c, lru c)
      in (fresh c, c\<lparr>cells := h, lru := l, fresh := Suc (fresh c)\<rparr>))"

text \<open>\<open>retv(id)\<close>, with the value of \<open>Date.now()\<close> as the parameter \<open>now\<close>. The result
  \<open>None\<close> is \<open>undefined\<close>.\<close>

definition retv :: "string \<Rightarrow> int \<Rightarrow> 'd ResponseCache \<Rightarrow> 'd option \<times> 'd ResponseCache" where
  "retv k now c =
     (case cmap c k of
        Some x \<Rightarrow>
          if js_lt (ci_expire x) (Num now)
          then (let c1 = c\<lparr>csize := csize c - ci_size x\<rparr>;
                    c2 = c1\<lparr>cmap := (cmap c1)(k := None)\<rparr>
                in (None, lru_remove (ci_link x) c2))
          else (Some (ci_data x), lru_insert_item (ci_link x) (lru_remove (ci_link x) c))
      | None \<Rightarrow> (None, c))"

text \<open>
  The eviction loop of \<open>stor\<close>: \<open>evict_step\<close> is the loop body for a tail item \<open>i\<close>.
  Nothing in the loop itself bounds the number of iterations, so the loop is a partial
  function: \<open>None\<close> means that it does not return.
\<close>

definition evict_step :: "ref \<Rightarrow> 'd ResponseCache \<Rightarrow> 'd ResponseCache" where
  "evict_step i c =
     (let k = item_value (cells c i);
          c1 = (case cmap c k of
                  Some x \<Rightarrow> (c\<lparr>csize := csize c - ci_size x\<rparr>)\<lparr>cmap := (cmap c)(k := None)\<rparr>
                | None \<Rightarrow> c)
      in lru_remove i c1)"

partial_function (option) evict :: "'d ResponseCache \<Rightarrow> 'd ResponseCache option" where
  "evict c =
     (if csize c > sizeLimit c
      then (case LinkedList_tail (lru c) of
              Some i \<Rightarrow> evict (evict_step i c)
            | None \<Rightarrow> Some c)
      else Some c)"

text \<open>\<open>stor(id, data, size, expires)\<close>: \<open>stor_entry\<close> is the \<open>if\<close>/\<open>else\<close> that updates
  or creates the item, \<open>stor\<close> adds the eviction loop under its guard.\<close>

definition stor_entry ::
  "string \<Rightarrow> 'd \<Rightarrow> int \<Rightarrow> jsnum \<Rightarrow> 'd ResponseCache \<Rightarrow> 'd ResponseCache" where
  "stor_entry k d sz expires c =
     (case cmap c k of
        Some x \<Rightarrow>
          c\<lparr>csize := csize c + (sz - ci_size x),
            cmap := (cmap c)(k \<mapsto> x\<lparr>ci_data := d, ci_size := sz, ci_expire := expires\<rparr>)\<rparr>
      | None \<Rightarrow>
          (let c' = c\<lparr>csize := csize c + sz\<rparr>;
               (item, c'') = lru_insert_value k c';
               x = \<lparr>ci_data = d, ci_size = sz, ci_id = k, ci_expire = expires, ci_link = item\<rparr>
           in c''\<lparr>cmap := (cmap c'')(k \<mapsto> x)\<rparr>))"

definition stor ::
  "string \<Rightarrow> 'd \<Rightarrow> int \<Rightarrow> jsnum \<Rightarrow> 'd ResponseCache \<Rightarrow> 'd ResponseCache option" where
  "stor k d sz expires c =
     (let c1 = stor_entry k d sz expires c
      in if sizeLimit c1 > 0 then evict c1 else Some c1)"

text \<open>Sequences of cache operations, run from a given cache.\<close>

datatype 'd cache_op = Stor string 'd int jsnum | Retv string int

fun apply_op :: "'d cache_op \<Rightarrow> 'd ResponseCache \<Rightarrow> 'd ResponseCache option" where
  "apply_op (Stor k d sz expires) c = stor k d sz expires c"
| "apply_op (Retv k now) c = Some (snd (retv k now c))"

fun run_ops :: "'d cache_op list \<Rightarrow> 'd ResponseCache \<Rightarrow> 'd ResponseCache option" where
  "run_ops [] c = Some c"
| "run_ops (x # xs) c = (case apply_op x c of None \<Rightarrow> None | Some c' \<Rightarrow> run_ops xs c')"

text \<open>
  The LRU order of a cache: the keys read from \<open>_head\<close> along the \<open>next\<close> pointers, most
  recently used first. The walk is bounded by the number of items ever allocated.
\<close>

fun walk :: "nat \<Rightarrow> cells \<Rightarrow> ref option \<Rightarrow> ref list" where
  "walk 0 h p = []"
| "walk (Suc n) h None = []"
| "walk (Suc n) h (Some r) = r # walk n h (item_next (h r))"

definition lru_keys :: "'d ResponseCache \<Rightarrow> string list" where
  "lru_keys c = map (\<lambda>r. item_value (cells c r)) (walk (fresh c) (cells c) (ll_head (lru c)))"

text \<open>The sum of the sizes of all stored entries.\<close>

definition entry_size :: "'d ResponseCache \<Rightarrow> string \<Rightarrow> int" where
  "entry_size c k = (case cmap c k of Some x \<Rightarrow> ci_size x | None \<Rightarrow> 0)"

definition entries_size :: "'d ResponseCache \<Rightarrow> int" where
  "entries_size c = (\<Sum>k \<in> dom (cmap c). entry_size c k)"

text \<open>
  The recency order in the words of the specification, most recently used first: \<open>put\<close>
  of a present key moves it to MRU, \<open>put\<close> of an absent key links it at MRU, and the LRU
  tail, the entry least recently accessed, is the last key of the order.
\<close>

definition spec_put_order :: "string \<Rightarrow> string list \<Rightarrow> string list" where
  "spec_put_order k order = k # remove1 k order"

section \<open>The heap abstraction of the LRU list\<close>

text \<open>
  The abstraction of the heap: \<open>dseg h p xs n\<close> says that the references \<open>xs\<close> form a
  doubly linked segment in the store \<open>h\<close> whose first item has \<open>prev = p\<close> and whose last
  item has \<open>next = n\<close>; \<open>is_list h l xs\<close> says that the list object \<open>l\<close> holds exactly the
  items \<open>xs\<close>, head first, with \<open>_tail\<close> null when there are fewer than two.
\<close>

fun first_or :: "ref list \<Rightarrow> ref option \<Rightarrow> ref option" where
  "first_or [] n = n"
| "first_or (y # ys) n = Some y"

fun last_or :: "ref list \<Rightarrow> ref option \<Rightarrow> ref option" where
  "last_or [] p = p"
| "last_or (y # ys) p = Some (last (y # ys))"

fun dseg :: "cells \<Rightarrow> ref option \<Rightarrow> ref list \<Rightarrow> ref option \<Rightarrow> bool" where
  "dseg h p [] n = True"
| "dseg h p (x # xs) n =
     (item_prev (h x) = p \<and> item_next (h x) = first_or xs n \<and> dseg h (Some x) xs n)"

definition is_list :: "cells \<Rightarrow> LinkedList \<Rightarrow> ref list \<Rightarrow> bool" where
  "is_list h l xs =
     (distinct xs \<and> dseg h None xs None \<and> ll_head l = first_or xs None
      \<and> ll_tail l = (if 2 \<le> length xs then Some (last xs) else None))"

text \<open>
  The invariant of a cache whose list holds the items \<open>rs\<close>: the list is well formed, its
  items are allocated, the keys of the map are the values of the items, every entry's
  \<open>link\<close> is the item that carries its key, and the recorded size is the sum of the
  entries' sizes.
\<close>

definition key_of :: "'d ResponseCache \<Rightarrow> ref \<Rightarrow> string" where
  "key_of c r = item_value (cells c r)"

definition cache_inv :: "'d ResponseCache \<Rightarrow> ref list \<Rightarrow> bool" where
  "cache_inv c rs =
     (is_list (cells c) (lru c) rs
      \<and> (\<forall>r \<in> set rs. r < fresh c)
      \<and> dom (cmap c) = key_of c ` set rs
      \<and> (\<forall>r \<in> set rs. map_option ci_link (cmap c (key_of c r)) = Some r)
      \<and> csize c = sum_list (map (\<lambda>r. entry_size c (key_of c r)) rs))"

text \<open>The total size of the \<open>m\<close> most recently used entries.\<close>

definition prefix_size :: "'d ResponseCache \<Rightarrow> ref list \<Rightarrow> nat \<Rightarrow> int" where
  "prefix_size c rs m = sum_list (map (\<lambda>r. entry_size c (key_of c r)) (take m rs))"

section \<open>The hook library: values, names and categories\<close>

text \<open>
  The values that hook functions receive and return. \<open>JObj\<close> is a plain object without a
  \<open>length\<close> property (a parameter map, a header map, a response descriptor); numbers are
  integers here.
\<close>

datatype jsval =
  JUndefined | JNull | JBool bool | JNum int | JStr string | JArr "jsval list" | JObj

fun typeof :: "jsval \<Rightarrow> string" where
  "typeof JUndefined = ''undefined''"
| "typeof JNull = ''object''"
| "typeof (JBool b) = ''boolean''"
| "typeof (JNum n) = ''number''"
| "typeof (JStr s) = ''string''"
| "typeof (JArr xs) = ''object''"
| "typeof JObj = ''object''"

text \<open>
  \<open>HOOK_FUNC_REGEX_V2 = /h([ASEase])([A-Za-z]+)?_(.*)/\<close>, on names of 8-bit characters.
  \<open>exec\<close> returns the leftmost match. At a given position the pattern needs \<open>h\<close>, a policy
  letter, then the optional greedy run of letters, then \<open>_\<close>: since \<open>_\<close> is not a letter,
  only the maximal run of letters can be followed by it, so backtracking into the run never
  succeeds and \<open>regex_match_here\<close> decides the match at the position. Group 2 is undefined
  (\<open>None\<close>) when the run is empty; group 3 is the rest of the name up to the first line
  terminator, which \<open>.\<close> does not match.
\<close>

definition isPolicyLetter :: "char \<Rightarrow> bool" where
  "isPolicyLetter c = (c \<in> set ''ASEase'')"

definition isLetter :: "char \<Rightarrow> bool" where
  "isLetter c = (let n = (of_char c :: nat) in (65 \<le> n \<and> n \<le> 90) \<or> (97 \<le> n \<and> n \<le> 122))"

definition isLineTerminator :: "char \<Rightarrow> bool" where
  "isLineTerminator c = ((of_char c :: nat) = 10 \<or> (of_char c :: nat) = 13)"

fun regex_match_here :: "string \<Rightarrow> (char \<times> string option \<times> string) option" where
  "regex_match_here (h # p # rest) =
     (if h = CHR ''h'' \<and> isPolicyLetter p
      then (let cats = takeWhile isLetter rest
            in case dropWhile isLetter rest of
                 [] \<Rightarrow> None
               | u # name \<Rightarrow>
                   if u = CHR ''_''
                   then Some (p, if cats = [] then None else Some cats,
                              takeWhile (\<lambda>c. \<not> isLineTerminator c) name)
                   else None)
      else None)"
| "regex_match_here _ = None"

fun HOOK_FUNC_REGEX_V2_exec :: "string \<Rightarrow> (char \<times> string option \<times> string) option" where
  "HOOK_FUNC_REGEX_V2_exec [] = None"
| "HOOK_FUNC_REGEX_V2_exec (c # cs) =
     (case regex_match_here (c # cs) of
        Some m \<Rightarrow> Some m
      | None \<Rightarrow> HOOK_FUNC_REGEX_V2_exec cs)"

text \<open>\<open>toUpperCase\<close> on the letters the pattern admits.\<close>

definition toUpperCase :: "char \<Rightarrow> char" where
  "toUpperCase c =
     (let n = (of_char c :: nat) in if 97 \<le> n \<and> n \<le> 122 then char_of (n - 32) else c)"

text \<open>
  \<open>decodeCategory(letter)\<close>: masks are 32-bit integers, since the bitwise operators of the
  language work on them. The argument is group 2 of the match, a string or undefined.
\<close>

definition decodeCategory :: "string option \<Rightarrow> 32 word" where
  "decodeCategory letter =
     (case letter of
        Some l \<Rightarrow>
          foldl (\<lambda>cat c. if 65 \<le> (of_char c :: nat) \<and> (of_char c :: nat) \<le> 90
                          then cat OR push_bit ((of_char c :: nat) - 65) 1 else cat)
                0 (map toUpperCase l)
      | None \<Rightarrow> - 1)"

section \<open>The hook library: loading modules\<close>

text \<open>
  A hook function is a function object with the properties the loader writes onto it.
  \<open>'f\<close> identifies the function object. Its \<open>priority\<close> is a value, because the function
  may carry a property of its own before it is loaded.
\<close>

record 'f hookfn =
  func :: 'f
  priority :: jsval
  src :: string
  htype :: string
  cat :: "32 word"
  execPolicy :: nat

text \<open>
  An export of a module is a function object, with the value of its own \<open>priority\<close>
  property (\<open>JUndefined\<close> when it declares none), or another value. A module is the list
  of its exports in enumeration order. A function exported under two names is one object:
  two exports with the same \<open>'f\<close>.
\<close>

datatype 'f export = ExFunc 'f jsval | ExVal jsval

fun typeof_export :: "'f export \<Rightarrow> string" where
  "typeof_export (ExFunc f p) = ''function''"
| "typeof_export (ExVal v) = typeof v"

definition module_priority :: "(string \<times> 'f export) list \<Rightarrow> int" where
  "module_priority md =
     (case map_of md ''priority'' of
        Some (ExVal (JNum n)) \<Rightarrow> n
      | _ \<Rightarrow> 0)"

text \<open>The policy code that the loader computes from group 1:
  \<open>m[1] == "S" ? 0 : (m[1] == "E" ? 1 : 2)\<close> after \<open>toUpperCase\<close>.\<close>

definition decode_policy :: "char \<Rightarrow> nat" where
  "decode_policy m1 =
     (let u = toUpperCase m1 in if u = CHR ''S'' then 0 else if u = CHR ''E'' then 1 else 2)"

text \<open>The body of the loop of \<open>__getHooksFromModule\<close> for the export \<open>i\<close>: the function
  \<open>mod[i]\<close> with the properties that the body writes onto it, if the name matches and the
  export is a function.\<close>

definition hook_of_export :: "string \<Rightarrow> int \<Rightarrow> string \<times> 'f export \<Rightarrow> 'f hookfn option" where
  "hook_of_export sign prio = (\<lambda>(i, v).
     (case HOOK_FUNC_REGEX_V2_exec i of
        None \<Rightarrow> None
      | Some (m1, m2, m3) \<Rightarrow>
          (case v of
             ExVal x \<Rightarrow> None
           | ExFunc f own \<Rightarrow>
               Some \<lparr>func = f,
                     priority = (if typeof_export v \<noteq> ''number'' then JNum prio else own),
                     src = sign,
                     htype = m3,
                     cat = decodeCategory m2,
                     execPolicy = decode_policy m1\<rparr>)))"

text \<open>
  The loop writes the properties onto the function object \<open>mod[i]\<close> itself and pushes the
  object, not a copy. \<open>objs\<close> is the store of the function objects written so far, and
  \<open>hooks\<close> the array of pushed objects. The elements of the returned array are read from
  the store after the loop: an object pushed twice shows the properties written last.
  Every call evaluates the module anew (the loader deletes it from \<open>require.cache\<close>), so
  the functions that the module defines are new objects.
\<close>

fun getHooks_loop :: "string \<Rightarrow> int \<Rightarrow> (string \<times> 'f export) list
    \<Rightarrow> ('f \<Rightarrow> 'f hookfn option) \<Rightarrow> 'f list \<Rightarrow> ('f \<Rightarrow> 'f hookfn option) \<times> 'f list" where
  "getHooks_loop sign prio [] objs hooks = (objs, hooks)"
| "getHooks_loop sign prio (x # xs) objs hooks =
     (case hook_of_export sign prio x of
        None \<Rightarrow> getHooks_loop sign prio xs objs hooks
      | Some h \<Rightarrow> getHooks_loop sign prio xs (objs(func h \<mapsto> h)) (hooks @ [func h]))"

definition getHooksFromModule :: "(string \<times> 'f export) list \<Rightarrow> string \<Rightarrow> 'f hookfn list" where
  "getHooksFromModule md sign =
     (let (objs, hooks) = getHooks_loop sign (module_priority md) md Map.empty []
      in List.map_filter objs hooks)"

section \<open>The hook library: chains\<close>

text \<open>
  \<open>HookExecutor.setHook\<close>. The test of \<open>findIndex\<close> is written as in the source, with its
  second conjunct comparing the \<open>type\<close> of the chain's function with itself. The sort
  compares \<open>a.priority - b.priority\<close>; the model sorts stably, and a comparison that yields
  NaN counts as equal. The loader stores a number in every \<open>priority\<close>; the conversion of
  a string to a number is outside the model, where a string reads as NaN.
\<close>

fun to_number :: "jsval \<Rightarrow> jsnum" where
  "to_number (JNum n) = Num n"
| "to_number JNull = Num 0"
| "to_number (JBool b) = Num (if b then 1 else 0)"
| "to_number _ = NaN"

definition priority_before :: "'f hookfn \<Rightarrow> 'f hookfn \<Rightarrow> bool" where
  "priority_before a b = js_lt (js_sub (to_number (priority a)) (to_number (priority b))) (Num 0)"

fun insert_by_priority :: "'f hookfn \<Rightarrow> 'f hookfn list \<Rightarrow> 'f hookfn list" where
  "insert_by_priority x [] = [x]"
| "insert_by_priority x (y # ys) =
     (if priority_before y x then y # insert_by_priority x ys else x # y # ys)"

definition sort_by_priority :: "'f hookfn list \<Rightarrow> 'f hookfn list" where
  "sort_by_priority hooks = foldr insert_by_priority hooks []"

fun findIndex :: "('a \<Rightarrow> bool) \<Rightarrow> 'a list \<Rightarrow> nat option" where
  "findIndex P [] = None"
| "findIndex P (x # xs) =
     (if P x then Some 0 else map_option Suc (findIndex P xs))"

definition setHook :: "'f hookfn \<Rightarrow> 'f hookfn list \<Rightarrow> 'f hookfn list" where
  "setHook hookfunc hooks =
     (let index = findIndex (\<lambda>hook. src hook = src hookfunc \<and> htype hook = htype hook) hooks;
          hooks1 = (case index of
                      Some i \<Rightarrow> hooks[i := hookfunc]
                    | None \<Rightarrow> hooks @ [hookfunc])
      in sort_by_priority hooks1)"

text \<open>
  \<open>HookExecutor.delHooks(signature)\<close>. The loop tests \<open>this.hooks.src\<close>, the property
  \<open>src\<close> of the array itself, which an array does not have: it reads \<open>undefined\<close>, and
  \<open>undefined == signature\<close> is false for a string.
\<close>

definition hooks_array_src :: "'f hookfn list \<Rightarrow> jsval" where
  "hooks_array_src hooks = JUndefined"

fun js_loose_eq_string :: "jsval \<Rightarrow> string \<Rightarrow> bool" where
  "js_loose_eq_string (JStr s) t = (s = t)"
| "js_loose_eq_string _ t = False"

function delHooks_loop :: "string \<Rightarrow> nat \<Rightarrow> 'f hookfn list \<Rightarrow> 'f hookfn list" where
  "delHooks_loop signature i hooks =
     (if i < length hooks
      then (if js_loose_eq_string (hooks_array_src hooks) signature
            then delHooks_loop signature i (take i hooks @ drop (Suc i) hooks)
            else delHooks_loop signature (Suc i) hooks)
      else hooks)"
  by pat_completeness auto

termination
  by (relation "measure (\<lambda>(s, i, hooks). length hooks - i)") auto

declare delHooks_loop.simps [simp del]

definition delHooks :: "string \<Rightarrow> 'f hookfn list \<Rightarrow> 'f hookfn list" where
  "delHooks signature hooks = delHooks_loop signature 0 hooks"

text \<open>
  \<open>HookLoader.__mergeHooksIntoTable\<close>, the body of its \<open>forEach\<close> for one module with
  signature \<open>sign\<close> and discovered functions \<open>hooks\<close>. The table is an object whose keys are
  hook names and whose values are executors, here the chains themselves, in insertion
  order. The source reads the table from \<open>this._hooks\<close>, a field that the constructor does
  not define (it defines \<open>_hooksTable\<close>); the model takes the table as a parameter. The
  hook name \<open>__proto__\<close>, which a JavaScript object treats specially, is outside the model.
  \<open>merge_chain\<close> is the inner loop over \<open>hooks\<close> for the key \<open>i\<close>, \<open>merge_for_in\<close> the
  loop over the keys, \<open>merge_pop\<close> the final \<open>while\<close> loop, which pops the remaining
  functions from the end.
\<close>

fun merge_chain :: "string \<Rightarrow> 'f hookfn list \<Rightarrow> 'f hookfn list
    \<Rightarrow> 'f hookfn list \<times> 'f hookfn list" where
  "merge_chain i [] chain = (chain, [])"
| "merge_chain i (h # hs) chain =
     (if htype h = i then merge_chain i hs (setHook h chain)
      else (let (chain', rest) = merge_chain i hs chain in (chain', h # rest)))"

fun merge_for_in :: "string \<Rightarrow> (string \<times> 'f hookfn list) list \<Rightarrow> 'f hookfn list
    \<Rightarrow> (string \<times> 'f hookfn list) list \<times> 'f hookfn list" where
  "merge_for_in sign [] hooks = ([], hooks)"
| "merge_for_in sign ((i, chain) # table) hooks =
     (let (chain', hooks') = merge_chain i hooks (delHooks sign chain);
          (table', hooks'') = merge_for_in sign table hooks'
      in ((i, chain') # table', hooks''))"

fun table_put :: "string \<Rightarrow> 'v \<Rightarrow> (string \<times> 'v) list \<Rightarrow> (string \<times> 'v) list" where
  "table_put k v [] = [(k, v)]"
| "table_put k v ((k', v') # t) = (if k' = k then (k, v) # t else (k', v') # table_put k v t)"

definition merge_pop :: "'f hookfn list \<Rightarrow> (string \<times> 'f hookfn list) list
    \<Rightarrow> (string \<times> 'f hookfn list) list" where
  "merge_pop hooks table = foldl (\<lambda>t hook. table_put (htype hook) (setHook hook []) t) table (rev hooks)"

definition mergeHooksIntoTable :: "string \<Rightarrow> 'f hookfn list \<Rightarrow> (string \<times> 'f hookfn list) list
    \<Rightarrow> (string \<times> 'f hookfn list) list" where
  "mergeHooksIntoTable sign hooks table =
     (let (table', rest) = merge_for_in sign table hooks in merge_pop rest table')"

text \<open>
  Re-encoding a decoded name, in the words of the specification: the policy letter, the
  letters of the categories in the mask (none for the mask of all categories), and the
  hook name.
\<close>

definition encode_policy :: "nat \<Rightarrow> char" where
  "encode_policy p = (if p = 0 then CHR ''S'' else if p = 1 then CHR ''E'' else CHR ''A'')"

definition encode_categories :: "32 word \<Rightarrow> string" where
  "encode_categories m =
     (if m = - 1 then [] else map (\<lambda>i. char_of (65 + i)) (filter (bit m) [0..<26]))"

definition encodeName :: "nat \<times> 32 word \<times> string \<Rightarrow> string" where
  "encodeName = (\<lambda>(p, m, name). CHR ''h'' # encode_policy p # encode_categories m @ CHR ''_'' # name)"

text \<open>The decoded parts of a name: policy, mask and hook name, as \<open>hook_of_export\<close>
  computes them.\<close>

definition decodeName :: "string \<Rightarrow> (nat \<times> 32 word \<times> string) option" where
  "decodeName i =
     (case HOOK_FUNC_REGEX_V2_exec i of
        None \<Rightarrow> None
      | Some (m1, m2, m3) \<Rightarrow> Some (decode_policy m1, decodeCategory m2, m3))"

text \<open>Reloading the module with basename \<open>sign\<close> whose exports are now \<open>md\<close>.\<close>

definition reload_module :: "string \<Rightarrow> (string \<times> 'f export) list \<Rightarrow> (string \<times> 'f hookfn list) list
    \<Rightarrow> (string \<times> 'f hookfn list) list" where
  "reload_module sign md table = mergeHooksIntoTable sign (getHooksFromModule md sign) table"

section \<open>The hook library: running a chain\<close>

text \<open>
  The match functions. Both apply a bitwise operator, which converts its operands to
  32-bit integers; \<open>inclusiveMatchFunc\<close> returns the number \<open>cat & catMask\<close>,
  \<open>strictMatchFunc\<close> the boolean \<open>(cat ^ catMask) == 0\<close>. The loops test the result for
  truthiness.
\<close>

definition inclusiveMatchFunc :: "32 word \<Rightarrow> 32 word \<Rightarrow> jsval" where
  "inclusiveMatchFunc c catMask = JNum (sint (c AND catMask))"

definition strictMatchFunc :: "32 word \<Rightarrow> 32 word \<Rightarrow> jsval" where
  "strictMatchFunc c catMask = JBool (c XOR catMask = 0)"

fun truthy :: "jsval \<Rightarrow> bool" where
  "truthy JUndefined = False"
| "truthy JNull = False"
| "truthy (JBool b) = b"
| "truthy (JNum n) = (n \<noteq> 0)"
| "truthy (JStr s) = (s \<noteq> [])"
| "truthy (JArr xs) = True"
| "truthy JObj = True"

text \<open>
  The context of one invocation. Its \<open>callback\<close> field is not a field of the model: the
  continuation that \<open>call\<close> stores there is the function \<open>callback\<close> below.
\<close>

record Context =
  lastResult :: jsval
  nextHook :: nat
  compareFunc :: "32 word \<Rightarrow> 32 word \<Rightarrow> jsval"

definition createContext :: "jsval \<Rightarrow> Context" where
  "createContext initialValue =
     \<lparr>lastResult = initialValue, nextHook = 0, compareFunc = inclusiveMatchFunc\<rparr>"

text \<open>
  \<open>hook.apply(context, args)\<close> builds the argument list from its second argument:
  \<open>undefined\<close> and \<open>null\<close> give no arguments, an array gives its elements, an object without
  \<open>length\<close> gives no arguments, and a primitive raises a TypeError (\<open>None\<close>). The spread
  \<open>...args\<close> iterates its operand: an array gives its elements, a string its characters,
  and anything else raises a TypeError.
\<close>

fun apply_args :: "jsval \<Rightarrow> jsval list option" where
  "apply_args JUndefined = Some []"
| "apply_args JNull = Some []"
| "apply_args (JArr xs) = Some xs"
| "apply_args JObj = Some []"
| "apply_args (JBool b) = None"
| "apply_args (JNum n) = None"
| "apply_args (JStr s) = None"

fun spread :: "jsval \<Rightarrow> jsval list option" where
  "spread (JArr xs) = Some xs"
| "spread (JStr s) = Some (map (\<lambda>c. JStr [c]) s)"
| "spread _ = None"

text \<open>
  A hook function of the model is pure: from the \<open>_lastResult\<close> it sees and the arguments it
  receives it computes its return value. A run records the index and the arguments of every
  function it invokes, and ends \<open>Finished\<close> (for \<open>call\<close>: the callback \<open>cb\<close> is scheduled with
  \<open>_lastResult\<close>), \<open>Suspended\<close> (an ASYNC function was invoked and holds the continuation) or
  \<open>Threw\<close>.
\<close>

type_synonym hookbody = "jsval \<Rightarrow> jsval list \<Rightarrow> jsval"

datatype status = Finished | Suspended | Threw

text \<open>\<open>HookExecutor.call\<close>: the loop from index \<open>i\<close> over the remaining functions.\<close>

fun call_loop :: "hookbody hookfn list \<Rightarrow> nat \<Rightarrow> 32 word \<Rightarrow> jsval \<Rightarrow> Context
    \<Rightarrow> (nat \<times> jsval list) list \<Rightarrow> status \<times> Context \<times> (nat \<times> jsval list) list" where
  "call_loop [] i catMask args ctx tr = (Finished, ctx, tr)"
| "call_loop (hook # rest) i catMask args ctx tr =
     (if truthy (compareFunc ctx (cat hook) catMask)
      then (if execPolicy hook = 0
            then (case apply_args args of
                    None \<Rightarrow> (Threw, ctx, tr)
                  | Some as \<Rightarrow>
                      call_loop rest (Suc i) catMask args
                        (ctx\<lparr>lastResult := func hook (lastResult ctx) as\<rparr>) (tr @ [(i, as)]))
            else if execPolicy hook = 1
            then (case apply_args args of
                    None \<Rightarrow> (Threw, ctx, tr)
                  | Some as \<Rightarrow> call_loop rest (Suc i) catMask args ctx (tr @ [(i, as)]))
            else if execPolicy hook = 2
            then (let ctx' = ctx\<lparr>nextHook := i + 1\<rparr>
                  in case apply_args args of
                       None \<Rightarrow> (Threw, ctx', tr)
                     | Some as \<Rightarrow> (Suspended, ctx', tr @ [(i, as)]))
            else call_loop rest (Suc i) catMask args ctx tr)
      else call_loop rest (Suc i) catMask args ctx tr)"

definition call :: "hookbody hookfn list \<Rightarrow> 32 word \<Rightarrow> Context \<Rightarrow> jsval
    \<Rightarrow> status \<times> Context \<times> (nat \<times> jsval list) list" where
  "call hooks catMask ctx args =
     call_loop (drop (nextHook ctx) hooks) (nextHook ctx) catMask args ctx []"

text \<open>
  The continuation that \<open>call\<close> stores in \<open>context.callback\<close> before it invokes an ASYNC
  function: \<open>(value) => { context._lastResult = value; this.call(catMask, cb, context,
  ...args); }\<close>. The spread passes the elements of \<open>args\<close> as separate arguments, so the
  parameter \<open>args\<close> of the resumed call is the first of them, or \<open>undefined\<close>.
\<close>

definition callback :: "hookbody hookfn list \<Rightarrow> 32 word \<Rightarrow> Context \<Rightarrow> jsval \<Rightarrow> jsval
    \<Rightarrow> status \<times> Context \<times> (nat \<times> jsval list) list" where
  "callback hooks catMask ctx args v =
     (let ctx' = ctx\<lparr>lastResult := v\<rparr>
      in case spread args of
           None \<Rightarrow> (Threw, ctx', [])
         | Some xs \<Rightarrow> call hooks catMask ctx' (case xs of [] \<Rightarrow> JUndefined | a # _ \<Rightarrow> a))"

text \<open>\<open>HookLoader.callHook\<close> and \<open>callHookStrict\<close> on the chain of the named hook: the rest
  parameter \<open>args\<close> is an array.\<close>

definition callHook :: "hookbody hookfn list \<Rightarrow> 32 word \<Rightarrow> jsval list
    \<Rightarrow> status \<times> Context \<times> (nat \<times> jsval list) list" where
  "callHook hooks catMask args = call hooks catMask (createContext JUndefined) (JArr args)"

definition callHookStrict :: "hookbody hookfn list \<Rightarrow> 32 word \<Rightarrow> jsval list
    \<Rightarrow> status \<times> Context \<times> (nat \<times> jsval list) list" where
  "callHookStrict hooks catMask args =
     call hooks catMask ((createContext JUndefined)\<lparr>compareFunc := strictMatchFunc\<rparr>) (JArr args)"






text \<open>
  Two chains for the examples. \<open>example_masks\<close> holds four synchronous functions with the
  masks \<open>0b001\<close>, \<open>0b010\<close>, \<open>0b011\<close> and \<open>-1\<close>. \<open>example_async_sync\<close> holds an ASYNC
  function followed by a SYNC function that returns the array of the arguments it received.
\<close>

definition example_hook :: "32 word \<Rightarrow> nat \<Rightarrow> hookbody \<Rightarrow> hookbody hookfn" where
  "example_hook c p f =
     \<lparr>func = f, priority = JNum 0, src = ''a.hook.js'', htype = ''x'', cat = c, execPolicy = p\<rparr>"


definition example_async_sync :: "hookbody hookfn list" where
  "example_async_sync =
     [example_hook (- 1) 2 (\<lambda>lr as. JUndefined), example_hook (- 1) 0 (\<lambda>lr as. JArr as)]"

section \<open>The server: rendering a hook response\<close>

text \<open>
  The fields of a response descriptor are duck-typed: a field holds \<open>undefined\<close>, \<open>null\<close>, a
  boolean, a number (an integer or NaN), a string, bytes (a \<open>Buffer\<close> or \<open>Uint8Array\<close>), a
  readable stream, or another object. Strings are sequences of bytes, their UTF-8 encoding.
  \<open>rp_error\<close> says whether \<open>error instanceof Error\<close> holds. The \<open>headers\<close> of a descriptor are
  left out: the handler sets each inside a \<open>try\<close> block, so they do not change what follows.
\<close>

datatype field =
  FUndefined | FNull | FBool bool | FNum int | FNaN | FStr string | FBytes "8 word list"
  | FStream | FObj

record ResponsePrototype =
  rp_error :: bool
  rp_status :: field
  rp_data :: field
  rp_dataType :: field
  rp_dataLength :: field
  rp_entityTag :: field
  rp_maxAge :: field
  rp_manual :: field

fun field_typeof :: "field \<Rightarrow> string" where
  "field_typeof FUndefined = ''undefined''"
| "field_typeof FNull = ''object''"
| "field_typeof (FBool b) = ''boolean''"
| "field_typeof (FNum n) = ''number''"
| "field_typeof FNaN = ''number''"
| "field_typeof (FStr s) = ''string''"
| "field_typeof (FBytes bs) = ''object''"
| "field_typeof FStream = ''object''"
| "field_typeof FObj = ''object''"

fun field_truthy :: "field \<Rightarrow> bool" where
  "field_truthy FUndefined = False"
| "field_truthy FNull = False"
| "field_truthy (FBool b) = b"
| "field_truthy (FNum n) = (n \<noteq> 0)"
| "field_truthy FNaN = False"
| "field_truthy (FStr s) = (s \<noteq> [])"
| "field_truthy (FBytes bs) = True"
| "field_truthy FStream = True"
| "field_truthy FObj = True"

text \<open>\<open>x == null\<close> holds for \<open>null\<close> and \<open>undefined\<close>.\<close>

fun field_is_null :: "field \<Rightarrow> bool" where
  "field_is_null FUndefined = True"
| "field_is_null FNull = True"
| "field_is_null _ = False"

text \<open>
  What the handler uses of its environment: whether the platform's \<open>setHeader\<close> accepts a
  header value (it throws otherwise), how the platform converts a string to a number, and
  whether the hook library has a target of a given name.
\<close>

record environment =
  validHeader :: "string \<Rightarrow> bool"
  stringToNumber :: "string \<Rightarrow> jsnum"
  checkTarget :: "string \<Rightarrow> bool"

text \<open>The numeric value of a field in an arithmetic expression. Bytes convert through their
  text; other objects give NaN.\<close>

fun field_to_number :: "environment \<Rightarrow> field \<Rightarrow> jsnum" where
  "field_to_number env (FNum n) = Num n"
| "field_to_number env FNaN = NaN"
| "field_to_number env FUndefined = NaN"
| "field_to_number env FNull = Num 0"
| "field_to_number env (FBool b) = Num (if b then 1 else 0)"
| "field_to_number env (FStr s) = stringToNumber env s"
| "field_to_number env (FBytes bs) = stringToNumber env (map (\<lambda>b. char_of (unat b)) bs)"
| "field_to_number env FStream = NaN"
| "field_to_number env FObj = NaN"

text \<open>\<open>Buffer.from(s, "utf8")\<close> on a string of bytes.\<close>

definition utf8_bytes :: "string \<Rightarrow> 8 word list" where
  "utf8_bytes s = map (\<lambda>c. of_nat (of_char c)) s"

text \<open>\<open>site.hosts[0] + "$" + request.url\<close>: an empty host list reads \<open>undefined\<close>.\<close>

definition cache_key :: "string list \<Rightarrow> string \<Rightarrow> string" where
  "cache_key hosts url = (case hosts of [] \<Rightarrow> ''undefined'' | h # _ \<Rightarrow> h) @ ''$'' @ url"

text \<open>
  What the handler sends: a simple response for a status code (\<open>errors.sendSimpleResponse\<close>),
  a body of bytes, a piped stream, an empty body, or a delegation to a manual target.
\<close>

datatype reply =
  Simple int | Body int "8 word list" | Piped int | Empty int | Delegated string | NoReply

text \<open>
  \<open>ServerInstance.__handleHookResponse\<close>. The result is \<open>None\<close> when a statement outside a
  \<open>try\<close> block throws; otherwise it is the reply together with the arguments of the call of
  \<open>this._cache.stor\<close>, if the handler makes it. \<open>render_data\<close> is the branch for a valid
  status and a body that is truthy or null.
\<close>

definition render_data :: "environment \<Rightarrow> int \<Rightarrow> string list \<Rightarrow> string \<Rightarrow> int
    \<Rightarrow> ResponsePrototype
    \<Rightarrow> (reply \<times> (string \<times> ResponsePrototype \<times> int \<times> jsnum) option) option" where
  "render_data env now hosts url status responseProto =
     (let cacheable0 = True;
          etag_ok = (case rp_entityTag responseProto of
                       FStr t \<Rightarrow> validHeader env t
                     | _ \<Rightarrow> True);
          cacheable1 = (if field_typeof (rp_entityTag responseProto) = ''string''
                        then cacheable0 else False);
          proto1 = (case rp_data responseProto of
                      FStr s \<Rightarrow> responseProto\<lparr>rp_data := FBytes (utf8_bytes s)\<rparr>
                    | _ \<Rightarrow> responseProto)
      in if \<not> etag_ok then None
         else (case rp_data proto1 of
                 FBytes bs \<Rightarrow>
                   Some (Body status bs,
                         if cacheable1
                         then Some (cache_key hosts url, proto1, int (length bs),
                                    js_add (Num now)
                                      (js_mul (field_to_number env (rp_maxAge proto1)) (Num 1000)))
                         else None)
               | FStream \<Rightarrow> Some (Piped status, None)
               | _ \<Rightarrow> Some (Simple status, None)))"

definition handleHookResponse :: "environment \<Rightarrow> int \<Rightarrow> string list \<Rightarrow> string \<Rightarrow> bool
    \<Rightarrow> ResponsePrototype option
    \<Rightarrow> (reply \<times> (string \<times> ResponsePrototype \<times> int \<times> jsnum) option) option" where
  "handleHookResponse env now hosts url error responseProto =
     (case responseProto of
        Some proto \<Rightarrow>
          if rp_error proto then Some (Simple 500, None)
          else if field_typeof (rp_status proto) = ''number''
          then (case rp_status proto of
                  FNum status \<Rightarrow>
                    if status \<ge> 100 \<and> status < 600
                    then (if field_truthy (rp_data proto) \<or> field_is_null (rp_data proto)
                          then render_data env now hosts url status proto
                          else Some (Empty status, None))
                    else Some (Simple 500, None)
                | _ \<Rightarrow> Some (Simple 500, None))
          else if field_typeof (rp_manual proto) = ''string''
          then (case rp_manual proto of
                  FStr target \<Rightarrow>
                    if length target > 0 \<and> checkTarget env target
                    then Some (Delegated target, None)
                    else Some (Simple 502, None)
                | _ \<Rightarrow> Some (NoReply, None))
          else Some (NoReply, None)
      | None \<Rightarrow> if error then Some (Simple 502, None) else Some (Simple 500, None))"

text \<open>The call of \<open>stor\<close> that the handler makes, and its effect on the cache.\<close>

definition stor_call :: "(reply \<times> (string \<times> ResponsePrototype \<times> int \<times> jsnum) option) option
    \<Rightarrow> (string \<times> ResponsePrototype \<times> int \<times> jsnum) option" where
  "stor_call r = (case r of Some (_, Some a) \<Rightarrow> Some a | _ \<Rightarrow> None)"

definition cache_after :: "(reply \<times> (string \<times> ResponsePrototype \<times> int \<times> jsnum) option) option
    \<Rightarrow> ResponsePrototype ResponseCache \<Rightarrow> ResponsePrototype ResponseCache option" where
  "cache_after r c =
     (case stor_call r of
        Some (k, d, sz, e) \<Rightarrow> stor k d sz e c
      | None \<Rightarrow> Some c)"

text \<open>The byte length of a body that is bytes or a string.\<close>

fun body_length :: "field \<Rightarrow> int" where
  "body_length (FBytes bs) = int (length bs)"
| "body_length (FStr s) = int (length s)"
| "body_length _ = 0"

text \<open>A descriptor for the examples: status 200, a string entity tag, \<open>maxAge = 300\<close>.\<close>

definition example_proto :: "field \<Rightarrow> field \<Rightarrow> ResponsePrototype" where
  "example_proto body age =
     \<lparr>rp_error = False, rp_status = FNum 200, rp_data = body, rp_dataType = FStr ''text/html'',
      rp_dataLength = FUndefined, rp_entityTag = FStr ''v1'', rp_maxAge = age,
      rp_manual = FUndefined\<rparr>"

definition example_env :: environment where
  "example_env = \<lparr>validHeader = (\<lambda>s. True), stringToNumber = (\<lambda>s. NaN), checkTarget = (\<lambda>s. False)\<rparr>"

section \<open>Properties of the Queue\<close>

lemma Queue_length_NaN: "Queue_length q = NaN"
  by (simp add: Queue_length_def Queue_head_property_def)

lemma Queue_add_capacity: "capacity (Queue_add x q) = capacity q"
  by (simp add: Queue_add_def Queue_length_NaN Let_def)

text \<open>
  C10. A queue created with capacity 2 receives the items 1 and 2. The length read by
  \<open>add\<close> is NaN, so the buffer is never extended; the second \<open>add\<close> wraps the tail index
  back onto the head index, and \<open>fetch\<close> then reports an empty queue (\<open>undefined\<close>)
  although two items were added and none was fetched.
\<close>

theorem Queue_full_reads_empty:
  "fst (Queue_fetch (Queue_add (2::nat) (Queue_add 1 (Queue_new 2)))) = None
   \<and> capacity (Queue_add (2::nat) (Queue_add 1 (Queue_new 2))) = 2"
  by (simp add: Queue_fetch_def Queue_add_def Queue_new_def Queue_length_NaN Let_def
      js_set_def js_rem_def)

section \<open>Doubly linked segments\<close>

lemma first_or_nonempty: "xs \<noteq> [] \<Longrightarrow> first_or xs n = Some (hd xs)"
  by (cases xs) auto

lemma last_or_nonempty: "xs \<noteq> [] \<Longrightarrow> last_or xs n = Some (last xs)"
  by (cases xs) auto

lemma dseg_cong: "(\<And>x. x \<in> set xs \<Longrightarrow> h' x = h x) \<Longrightarrow> dseg h' p xs n = dseg h p xs n"
  by (induction xs arbitrary: p) auto

lemma first_or_append: "first_or (as @ bs) n = first_or as (first_or bs n)"
  by (cases as) auto

lemma last_or_Cons: "last_or (a # as) p = last_or as (Some a)"
  by (cases as) auto

lemma dseg_append:
  "dseg h p (as @ bs) n = (dseg h p as (first_or bs n) \<and> dseg h (last_or as p) bs n)"
proof (induction as arbitrary: p)
  case Nil
  show ?case by simp
next
  case (Cons a as)
  have "dseg h p ((a # as) @ bs) n =
      (item_prev (h a) = p \<and> item_next (h a) = first_or as (first_or bs n)
       \<and> dseg h (Some a) (as @ bs) n)"
    by (simp add: first_or_append)
  also have "\<dots> = (item_prev (h a) = p \<and> item_next (h a) = first_or as (first_or bs n)
       \<and> dseg h (Some a) as (first_or bs n) \<and> dseg h (last_or as (Some a)) bs n)"
    by (simp only: Cons.IH)
  also have "\<dots> = (dseg h p (a # as) (first_or bs n) \<and> dseg h (last_or (a # as) p) bs n)"
    by (simp only: dseg.simps last_or_Cons conj_assoc)
  finally show ?case .
qed

lemma dseg_set_next_last:
  "dseg h p as n \<Longrightarrow> distinct as \<Longrightarrow> as \<noteq> [] \<Longrightarrow>
   dseg (h(last as := (h (last as))\<lparr>item_next := n'\<rparr>)) p as n'"
proof (induction as arbitrary: p)
  case Nil
  then show ?case by simp
next
  case (Cons a as)
  show ?case
  proof (cases "as = []")
    case True
    with Cons.prems show ?thesis by simp
  next
    case False
    define h' where "h' = h(last as := (h (last as))\<lparr>item_next := n'\<rparr>)"
    have ne: "a \<noteq> last as"
      using Cons.prems(2) False last_in_set by fastforce
    have "dseg h (Some a) as n" "distinct as"
      using Cons.prems by simp_all
    then have ih: "dseg h' (Some a) as n'"
      unfolding h'_def using Cons.IH False by blast
    have "item_prev (h a) = p" "item_next (h a) = Some (hd as)"
      using Cons.prems False by (simp_all add: first_or_nonempty)
    then have "item_prev (h' a) = p" "item_next (h' a) = first_or as n'"
      using ne False by (simp_all add: h'_def first_or_nonempty)
    with ih have r: "dseg h' p (a # as) n'" by simp
    have eq: "last (a # as) = last as" using False by simp
    show ?thesis unfolding eq using r unfolding h'_def .
  qed
qed

lemma dseg_set_prev_first:
  "dseg h p (b # bs) n \<Longrightarrow> b \<notin> set bs \<Longrightarrow>
   dseg (h(b := (h b)\<lparr>item_prev := p'\<rparr>)) p' (b # bs) n"
proof -
  assume a: "dseg h p (b # bs) n" and b: "b \<notin> set bs"
  have "dseg (h(b := (h b)\<lparr>item_prev := p'\<rparr>)) (Some b) bs n = dseg h (Some b) bs n"
    by (rule dseg_cong) (use b in auto)
  then show ?thesis using a by simp
qed

lemma distinct_last_hd: "distinct xs \<Longrightarrow> xs \<noteq> [] \<Longrightarrow> (last xs = hd xs) = (length xs = 1)"
  by (cases xs) (auto simp: last_in_set)

lemma LinkedList_tail_is_list:
  "is_list h l xs \<Longrightarrow> LinkedList_tail l = last_or xs None"
  by (cases xs; cases "tl xs") (auto simp: is_list_def LinkedList_tail_def)

section \<open>LinkedList.remove\<close>

lemma LinkedList_remove_cells:
  assumes d: "distinct (as @ it # bs)" and s: "dseg h None (as @ it # bs) None"
  shows "dseg (fst (LinkedList_remove it (h, l))) None (as @ bs) None"
    and "item_value (fst (LinkedList_remove it (h, l)) r) = item_value (h r)"
    and "item_prev (remove_unlink_next it (remove_unlink_prev it h) it) = last_or as None"
    and "item_next (remove_unlink_next it (remove_unlink_prev it h) it) = first_or bs None"
proof -
  from s have sa: "dseg h None as (Some it)"
    and pi: "item_prev (h it) = last_or as None"
    and ni: "item_next (h it) = first_or bs None"
    and sb: "dseg h (Some it) bs None"
    by (simp_all add: dseg_append)
  define h1 where "h1 = (if as = [] then h
     else h(last as := (h (last as))\<lparr>item_next := first_or bs None\<rparr>))"
  define h2 where "h2 = (if bs = [] then h1
     else h1(hd bs := (h1 (hd bs))\<lparr>item_prev := last_or as None\<rparr>))"
  define h3 where "h3 = h2(it := (h2 it)\<lparr>item_next := None, item_prev := None\<rparr>)"
  have la: "as \<noteq> [] \<Longrightarrow> last as \<noteq> it \<and> last as \<notin> set bs"
  proof -
    assume "as \<noteq> []"
    then have "last as \<in> set as" by simp
    with d show ?thesis by auto
  qed
  have hb: "bs \<noteq> [] \<Longrightarrow> hd bs \<noteq> it \<and> hd bs \<notin> set as"
  proof -
    assume "bs \<noteq> []"
    then have "hd bs \<in> set bs" by simp
    with d show ?thesis by auto
  qed
  have h1it: "h1 it = h it" using la by (auto simp: h1_def)
  have h2it: "h2 it = h it" using hb h1it by (auto simp: h2_def)
  have e1: "remove_unlink_prev it h = h1"
    by (cases "as = []") (simp_all add: remove_unlink_prev_def pi ni h1_def last_or_nonempty)
  have e2: "remove_unlink_next it h1 = h2"
    by (cases "bs = []")
      (simp_all add: remove_unlink_next_def h1it pi ni h2_def first_or_nonempty)
  show "item_prev (remove_unlink_next it (remove_unlink_prev it h) it) = last_or as None"
    by (simp add: e1 e2 h2it pi)
  show "item_next (remove_unlink_next it (remove_unlink_prev it h) it) = first_or bs None"
    by (simp add: e1 e2 h2it ni)
  have fst_eq: "fst (LinkedList_remove it (h, l)) = h3"
    by (simp add: LinkedList_remove_def Let_def e1 e2 h3_def remove_clear_def)
  have a1: "dseg h1 None as (first_or bs None)"
  proof (cases "as = []")
    case True then show ?thesis by simp
  next
    case False
    then show ?thesis using dseg_set_next_last[OF sa _ False] d by (simp add: h1_def)
  qed
  have "dseg h3 None as (first_or bs None) = dseg h1 None as (first_or bs None)"
    by (rule dseg_cong) (use d hb in \<open>auto simp: h3_def h2_def\<close>)
  with a1 have A: "dseg h3 None as (first_or bs None)" by simp
  have "dseg h1 (Some it) bs None = dseg h (Some it) bs None"
    by (rule dseg_cong) (use la in \<open>auto simp: h1_def\<close>)
  with sb have b1: "dseg h1 (Some it) bs None" by simp
  have b2: "dseg h2 (last_or as None) bs None"
  proof (cases bs)
    case Nil then show ?thesis by simp
  next
    case (Cons b bs')
    then show ?thesis using dseg_set_prev_first[of h1 "Some it" b bs' None "last_or as None"] b1 d
      by (simp add: h2_def)
  qed
  have "dseg h3 (last_or as None) bs None = dseg h2 (last_or as None) bs None"
    by (rule dseg_cong) (use d in \<open>auto simp: h3_def\<close>)
  with b2 have B: "dseg h3 (last_or as None) bs None" by simp
  from A B show "dseg (fst (LinkedList_remove it (h, l))) None (as @ bs) None"
    by (simp add: fst_eq dseg_append)
  show "item_value (fst (LinkedList_remove it (h, l)) r) = item_value (h r)"
    by (simp add: fst_eq h3_def h2_def h1_def)
qed

lemma LinkedList_remove_is_list:
  assumes il: "is_list h l xs" and mem: "it \<in> set xs"
  shows "is_list (fst (LinkedList_remove it (h, l))) (snd (LinkedList_remove it (h, l)))
           (remove1 it xs)"
proof -
  from mem obtain as bs where xs: "xs = as @ it # bs" and nia: "it \<notin> set as"
    by (auto dest: split_list_first)
  from il have d: "distinct (as @ it # bs)" and s: "dseg h None (as @ it # bs) None"
    and hd0: "ll_head l = first_or (as @ it # bs) None"
    and tl0: "ll_tail l = (if 2 \<le> length (as @ it # bs) then Some (last (as @ it # bs)) else None)"
    by (simp_all add: is_list_def xs)
  define h2 where "h2 = remove_unlink_next it (remove_unlink_prev it h)"
  note c = LinkedList_remove_cells[OF d s]
  have p2: "item_prev (h2 it) = last_or as None" and n2: "item_next (h2 it) = first_or bs None"
    using c(3,4) by (simp_all add: h2_def)
  have r1: "remove1 it xs = as @ bs"
    using nia by (simp add: xs remove1_append)
  have sn: "snd (LinkedList_remove it (h, l)) = remove_fix_head it h2 (remove_fix_tail it h2 l)"
    by (simp add: LinkedList_remove_def Let_def h2_def)
  have dab: "distinct (as @ bs)" using d by auto
  have hd1: "ll_head (remove_fix_head it h2 (remove_fix_tail it h2 l)) = first_or (as @ bs) None"
    and tl1: "ll_tail (remove_fix_head it h2 (remove_fix_tail it h2 l)) =
       (if 2 \<le> length (as @ bs) then Some (last (as @ bs)) else None)"
  proof -
    have nib: "it \<notin> set bs" using d by auto
    have lb: "bs \<noteq> [] \<Longrightarrow> last bs \<noteq> it"
      using nib last_in_set by fastforce
    have ha: "as \<noteq> [] \<Longrightarrow> hd as \<noteq> it"
      using nia hd_in_set by fastforce
    have da: "distinct as" and db: "distinct bs" using d by auto
    have "ll_head (remove_fix_head it h2 (remove_fix_tail it h2 l)) = first_or (as @ bs) None
      \<and> ll_tail (remove_fix_head it h2 (remove_fix_tail it h2 l)) =
       (if 2 \<le> length (as @ bs) then Some (last (as @ bs)) else None)"
    proof (cases "as = []")
      case True
      note asE = True
      show ?thesis
      proof (cases "bs = []")
        case True
        with asE show ?thesis
          by (simp add: remove_fix_head_def remove_fix_tail_def hd0 tl0 p2 n2 Let_def)
      next
        case False
        then have "(last bs = hd bs) = (length bs = 1)" using db by (rule_tac distinct_last_hd)
        moreover have "length bs \<noteq> 0" using False by simp
        ultimately show ?thesis using asE False lb
          by (auto simp add: remove_fix_head_def remove_fix_tail_def hd0 tl0 p2 n2 Let_def
              first_or_nonempty)
      qed
    next
      case False
      note asN = False
      show ?thesis
      proof (cases "bs = []")
        case True
        have "(last as = hd as) = (length as = 1)" using da asN by (rule distinct_last_hd)
        moreover have "length as \<noteq> 0" using asN by simp
        ultimately show ?thesis using asN True ha
          by (auto simp add: remove_fix_head_def remove_fix_tail_def hd0 tl0 p2 n2 Let_def
              first_or_nonempty last_or_nonempty first_or_append)
      next
        case False
        have "2 \<le> length (as @ bs)" using asN False
          by (cases as; cases bs) auto
        then show ?thesis using asN False ha lb
          by (auto simp add: remove_fix_head_def remove_fix_tail_def hd0 tl0 Let_def
              first_or_nonempty first_or_append)
      qed
    qed
    then show "ll_head (remove_fix_head it h2 (remove_fix_tail it h2 l)) = first_or (as @ bs) None"
      and "ll_tail (remove_fix_head it h2 (remove_fix_tail it h2 l)) =
       (if 2 \<le> length (as @ bs) then Some (last (as @ bs)) else None)"
      by simp_all
  qed
  show ?thesis
    unfolding r1 sn is_list_def using dab c(1) hd1 tl1 by simp
qed

section \<open>LinkedList.insert\<close>

lemma is_list_cong: "is_list h l xs \<Longrightarrow> (\<And>x. x \<in> set xs \<Longrightarrow> h' x = h x) \<Longrightarrow> is_list h' l xs"
  using dseg_cong[of xs h' h None None] by (simp add: is_list_def)

lemma link_first_is_list:
  assumes il: "is_list h l xs" and ni: "it \<notin> set xs"
    and p0: "item_prev (h it) = None" and n0: "item_next (h it) = None"
  shows "is_list (fst (LinkedList_link_first it (h, l))) (snd (LinkedList_link_first it (h, l)))
           (it # xs)"
proof (cases xs)
  case Nil
  with il p0 n0 show ?thesis
    by (simp add: is_list_def LinkedList_link_first_def)
next
  case (Cons x xs')
  from il have d: "distinct (x # xs')" and s: "dseg h None (x # xs') None"
    and hd0: "ll_head l = Some x"
    and tl0: "ll_tail l = (if 2 \<le> length (x # xs') then Some (last (x # xs')) else None)"
    by (simp_all add: is_list_def Cons)
  define h1 where "h1 = h(x := (h x)\<lparr>item_prev := Some it\<rparr>)"
  define h2 where "h2 = h1(it := (h1 it)\<lparr>item_next := Some x\<rparr>)"
  have xi: "x \<noteq> it" using ni Cons by auto
  have s1: "dseg h1 (Some it) (x # xs') None"
    unfolding h1_def using s d by (intro dseg_set_prev_first) auto
  have "dseg h2 (Some it) (x # xs') None = dseg h1 (Some it) (x # xs') None"
    by (rule dseg_cong) (use ni Cons in \<open>auto simp: h2_def\<close>)
  with s1 have s2: "dseg h2 (Some it) (x # xs') None" by simp
  have "item_prev (h2 it) = None" "item_next (h2 it) = Some x"
    using xi p0 by (simp_all add: h2_def h1_def)
  with s2 have S: "dseg h2 None (it # x # xs') None" by simp
  have f: "fst (LinkedList_link_first it (h, l)) = h2"
    by (simp add: LinkedList_link_first_def hd0 Let_def h1_def h2_def)
  have g: "snd (LinkedList_link_first it (h, l)) =
      (if ll_tail l = None then l\<lparr>ll_tail := ll_head l\<rparr> else l)\<lparr>ll_head := Some it\<rparr>"
    by (simp add: LinkedList_link_first_def hd0 Let_def)
  show ?thesis
    unfolding f g Cons is_list_def using S d ni Cons hd0 tl0
    by (cases xs') auto
qed

lemma link_first_value:
  "item_value (fst (LinkedList_link_first it (h, l)) r) = item_value (h r)"
  by (simp add: LinkedList_link_first_def Let_def split: option.splits)

lemma LinkedList_insert_item_is_list:
  assumes il: "is_list h l xs" and ni: "it \<notin> set xs"
  shows "is_list (fst (LinkedList_insert_item it (h, l))) (snd (LinkedList_insert_item it (h, l)))
           (it # xs)"
  unfolding LinkedList_insert_item_def prod.case
  by (rule link_first_is_list) (use ni in \<open>auto intro: is_list_cong[OF il]\<close>)

lemma LinkedList_insert_item_value:
  "item_value (fst (LinkedList_insert_item it (h, l)) r) = item_value (h r)"
  by (simp add: LinkedList_insert_item_def link_first_value)

lemma LinkedList_insert_value_is_list:
  assumes il: "is_list h l xs" and ni: "it \<notin> set xs"
  shows "is_list (fst (LinkedList_insert_value v it (h, l)))
           (snd (LinkedList_insert_value v it (h, l))) (it # xs)"
  unfolding LinkedList_insert_value_def prod.case
  by (rule link_first_is_list) (use ni in \<open>auto intro: is_list_cong[OF il]\<close>)

lemma LinkedList_insert_value_value:
  "item_value (fst (LinkedList_insert_value v it (h, l)) r) = (if r = it then v else item_value (h r))"
  by (simp add: LinkedList_insert_value_def link_first_value)

section \<open>The cache invariant\<close>

lemma lru_remove_alt:
  "lru_remove it c = c\<lparr>cells := fst (LinkedList_remove it (cells c, lru c)),
                          lru := snd (LinkedList_remove it (cells c, lru c))\<rparr>"
  by (simp add: lru_remove_def case_prod_beta)

lemma lru_insert_item_alt:
  "lru_insert_item it c = c\<lparr>cells := fst (LinkedList_insert_item it (cells c, lru c)),
                          lru := snd (LinkedList_insert_item it (cells c, lru c))\<rparr>"
  by (simp add: lru_insert_item_def case_prod_beta)

lemma lru_insert_value_alt:
  "lru_insert_value v c = (fresh c,
     c\<lparr>cells := fst (LinkedList_insert_value v (fresh c) (cells c, lru c)),
       lru := snd (LinkedList_insert_value v (fresh c) (cells c, lru c)),
       fresh := Suc (fresh c)\<rparr>)"
  by (simp add: lru_insert_value_def case_prod_beta)

lemma lru_remove_fields [simp]:
  "cmap (lru_remove it c) = cmap c" "csize (lru_remove it c) = csize c"
  "sizeLimit (lru_remove it c) = sizeLimit c" "fresh (lru_remove it c) = fresh c"
  by (simp_all add: lru_remove_alt)

lemma lru_insert_item_fields [simp]:
  "cmap (lru_insert_item it c) = cmap c" "csize (lru_insert_item it c) = csize c"
  "sizeLimit (lru_insert_item it c) = sizeLimit c" "fresh (lru_insert_item it c) = fresh c"
  by (simp_all add: lru_insert_item_alt)

lemma lru_insert_value_fields [simp]:
  "cmap (snd (lru_insert_value v c)) = cmap c" "csize (snd (lru_insert_value v c)) = csize c"
  "sizeLimit (snd (lru_insert_value v c)) = sizeLimit c"
  "fresh (snd (lru_insert_value v c)) = Suc (fresh c)"
  "fst (lru_insert_value v c) = fresh c"
  by (simp_all add: lru_insert_value_alt)

lemma key_of_lru_remove [simp]: "key_of (lru_remove it c) r = key_of c r"
proof -
  have "item_value (fst (LinkedList_remove it (cells c, lru c)) r) = item_value (cells c r)"
    by (simp add: LinkedList_remove_def Let_def remove_clear_def remove_unlink_next_def
        remove_unlink_prev_def split: option.splits)
  then show ?thesis
    by (simp add: key_of_def lru_remove_alt)
qed

lemma key_of_lru_insert_item [simp]: "key_of (lru_insert_item it c) r = key_of c r"
  using LinkedList_insert_item_value[of it "cells c" "lru c" r]
  by (simp add: key_of_def lru_insert_item_alt)

lemma key_of_lru_insert_value:
  "key_of (snd (lru_insert_value v c)) r = (if r = fresh c then v else key_of c r)"
  using LinkedList_insert_value_value[of v "fresh c" "cells c" "lru c" r]
  by (simp add: key_of_def lru_insert_value_alt)

lemma key_of_update [simp]:
  "key_of (c\<lparr>csize := v\<rparr>) = key_of c" "key_of (c\<lparr>cmap := m\<rparr>) = key_of c"
  by (rule ext, simp add: key_of_def)+

lemma entry_size_cmap_cong: "cmap c' = cmap c \<Longrightarrow> entry_size c' = entry_size c"
  by (rule ext) (simp add: entry_size_def)

lemma is_list_lru_remove:
  "is_list (cells c) (lru c) rs \<Longrightarrow> it \<in> set rs \<Longrightarrow>
   is_list (cells (lru_remove it c)) (lru (lru_remove it c)) (remove1 it rs)"
  using LinkedList_remove_is_list[of "cells c" "lru c" rs it]
  by (simp add: lru_remove_alt)

lemma is_list_lru_insert_item:
  "is_list (cells c) (lru c) rs \<Longrightarrow> it \<notin> set rs \<Longrightarrow>
   is_list (cells (lru_insert_item it c)) (lru (lru_insert_item it c)) (it # rs)"
  using LinkedList_insert_item_is_list[of "cells c" "lru c" rs it]
  by (simp add: lru_insert_item_alt)

lemma is_list_lru_insert_value:
  "is_list (cells c) (lru c) rs \<Longrightarrow> fresh c \<notin> set rs \<Longrightarrow>
   is_list (cells (snd (lru_insert_value v c))) (lru (snd (lru_insert_value v c))) (fresh c # rs)"
  using LinkedList_insert_value_is_list[of "cells c" "lru c" rs "fresh c" v]
  by (simp add: lru_insert_value_alt)

lemma cache_inv_distinct: "cache_inv c rs \<Longrightarrow> distinct rs"
  by (simp add: cache_inv_def is_list_def)

lemma cache_inv_inj: "cache_inv c rs \<Longrightarrow> inj_on (key_of c) (set rs)"
  by (rule inj_onI) (metis cache_inv_def option.inject)

lemma cache_inv_lookup:
  "cache_inv c rs \<Longrightarrow> r \<in> set rs \<Longrightarrow> \<exists>x. cmap c (key_of c r) = Some x \<and> ci_link x = r"
  by (auto simp: cache_inv_def)

lemma cache_inv_link:
  "cache_inv c rs \<Longrightarrow> cmap c k = Some x \<Longrightarrow> ci_link x \<in> set rs \<and> key_of c (ci_link x) = k"
proof -
  assume a: "cache_inv c rs" and b: "cmap c k = Some x"
  then have "k \<in> key_of c ` set rs" by (auto simp: cache_inv_def)
  then obtain r where r: "r \<in> set rs" "k = key_of c r" by auto
  with a b have "ci_link x = r" by (auto simp: cache_inv_def)
  with r show ?thesis by simp
qed

text \<open>Dropping one linked entry from the map and the list.\<close>

lemma cache_inv_drop:
  assumes inv: "cache_inv c rs" and mem: "it \<in> set rs"
    and c1: "cmap c1 = (cmap c)(key_of c it := None)"
      "csize c1 = csize c - entry_size c (key_of c it)"
      "cells c1 = cells c" "lru c1 = lru c" "fresh c1 = fresh c"
  shows "cache_inv (lru_remove it c1) (remove1 it rs)"
proof -
  have k1: "key_of c1 = key_of c" by (rule ext) (simp add: key_of_def c1)
  have d: "distinct rs" using inv by (rule cache_inv_distinct)
  have inj: "inj_on (key_of c) (set rs)" using inv by (rule cache_inv_inj)
  have ne: "\<And>r. r \<in> set (remove1 it rs) \<Longrightarrow> key_of c r \<noteq> key_of c it"
    using inj mem d by (auto simp: inj_on_def)
  have es: "\<And>r. r \<in> set (remove1 it rs) \<Longrightarrow>
      entry_size (lru_remove it c1) (key_of c r) = entry_size c (key_of c r)"
    using ne by (simp add: entry_size_def c1)
  have "is_list (cells (lru_remove it c1)) (lru (lru_remove it c1)) (remove1 it rs)"
    using inv mem by (intro is_list_lru_remove) (simp_all add: cache_inv_def c1)
  moreover have "\<forall>r \<in> set (remove1 it rs). r < fresh (lru_remove it c1)"
    using inv d by (auto simp: cache_inv_def c1)
  moreover have "dom (cmap (lru_remove it c1)) = key_of (lru_remove it c1) ` set (remove1 it rs)"
  proof -
    have "dom (cmap (lru_remove it c1)) = key_of c ` set rs - {key_of c it}"
      using inv by (auto simp: cache_inv_def c1)
    also have "\<dots> = key_of c ` (set rs - {it})"
      using inj mem by (auto simp: inj_on_def)
    finally show ?thesis using d by (simp add: k1)
  qed
  moreover have "\<forall>r \<in> set (remove1 it rs).
      map_option ci_link (cmap (lru_remove it c1) (key_of (lru_remove it c1) r)) = Some r"
    using inv ne d by (auto simp: cache_inv_def c1 k1)
  moreover have "csize (lru_remove it c1) =
      sum_list (map (\<lambda>r. entry_size (lru_remove it c1) (key_of (lru_remove it c1) r))
        (remove1 it rs))"
  proof -
    have "sum_list (map (\<lambda>r. entry_size c (key_of c r)) rs) =
        entry_size c (key_of c it) + sum_list (map (\<lambda>r. entry_size c (key_of c r)) (remove1 it rs))"
      using mem by (rule sum_list_map_remove1)
    moreover have "sum_list (map (\<lambda>r. entry_size (lru_remove it c1) (key_of (lru_remove it c1) r))
        (remove1 it rs)) = sum_list (map (\<lambda>r. entry_size c (key_of c r)) (remove1 it rs))"
      by (rule arg_cong[where f = sum_list], rule map_cong) (simp_all add: es k1)
    moreover have "csize c = sum_list (map (\<lambda>r. entry_size c (key_of c r)) rs)"
      using inv by (simp add: cache_inv_def)
    ultimately show ?thesis by (simp add: c1)
  qed
  ultimately show ?thesis by (simp add: cache_inv_def)
qed

lemma cache_inv_touch:
  assumes inv: "cache_inv c rs" and mem: "it \<in> set rs"
  shows "cache_inv (lru_insert_item it (lru_remove it c)) (it # remove1 it rs)"
proof -
  let ?c = "lru_insert_item it (lru_remove it c)"
  have d: "distinct rs" using inv by (rule cache_inv_distinct)
  have st: "set (it # remove1 it rs) = set rs" using mem d by auto
  have "is_list (cells (lru_remove it c)) (lru (lru_remove it c)) (remove1 it rs)"
    using inv mem by (intro is_list_lru_remove) (simp_all add: cache_inv_def)
  then have "is_list (cells ?c) (lru ?c) (it # remove1 it rs)"
    using d by (intro is_list_lru_insert_item) simp_all
  moreover have es: "entry_size ?c = entry_size c"
    by (rule entry_size_cmap_cong) simp
  have "sum_list (map (\<lambda>r. entry_size c (key_of c r)) rs) =
        entry_size c (key_of c it) + sum_list (map (\<lambda>r. entry_size c (key_of c r)) (remove1 it rs))"
    using mem by (rule sum_list_map_remove1)
  then have "csize ?c = sum_list (map (\<lambda>r. entry_size ?c (key_of ?c r)) (it # remove1 it rs))"
    using inv by (simp add: cache_inv_def es)
  moreover have "\<forall>r \<in> set (it # remove1 it rs). r < fresh ?c"
    unfolding st using inv by (simp add: cache_inv_def)
  moreover have "dom (cmap ?c) = key_of ?c ` set (it # remove1 it rs)"
    unfolding st using inv by (simp add: cache_inv_def)
  moreover have "\<forall>r \<in> set (it # remove1 it rs). map_option ci_link (cmap ?c (key_of ?c r)) = Some r"
    unfolding st using inv by (simp add: cache_inv_def)
  ultimately show ?thesis unfolding cache_inv_def by blast
qed

lemma cache_inv_add:
  assumes inv: "cache_inv c rs" and new: "cmap c k = None"
    and lx: "ci_link x = fresh c" and sx: "ci_size x = sz"
  shows "cache_inv ((snd (lru_insert_value k (c\<lparr>csize := csize c + sz\<rparr>)))
            \<lparr>cmap := (cmap (snd (lru_insert_value k (c\<lparr>csize := csize c + sz\<rparr>))))(k \<mapsto> x)\<rparr>)
          (fresh c # rs)"
proof -
  let ?ca = "c\<lparr>csize := csize c + sz\<rparr>"
  let ?cb = "snd (lru_insert_value k ?ca)"
  let ?c = "?cb\<lparr>cmap := (cmap ?cb)(k \<mapsto> x)\<rparr>"
  have fr: "fresh c \<notin> set rs" using inv by (auto simp: cache_inv_def)
  have kc: "\<And>r. key_of ?c r = (if r = fresh c then k else key_of c r)"
    by (simp add: key_of_lru_insert_value)
  have kf: "key_of ?cb (fresh c) = k" by (simp add: key_of_lru_insert_value)
  have kr: "\<And>r. r \<in> set rs \<Longrightarrow> key_of ?cb r = key_of c r"
    using fr by (auto simp: key_of_lru_insert_value)
  have nk: "\<And>r. r \<in> set rs \<Longrightarrow> key_of c r \<noteq> k"
    using inv new by (metis cache_inv_lookup option.distinct(1))
  have "is_list (cells ?ca) (lru ?ca) rs" using inv by (simp add: cache_inv_def)
  then have "is_list (cells ?cb) (lru ?cb) (fresh ?ca # rs)"
    by (rule is_list_lru_insert_value) (use fr in simp)
  then have "is_list (cells ?c) (lru ?c) (fresh c # rs)" by simp
  moreover have "\<forall>r \<in> set (fresh c # rs). r < fresh ?c"
    using inv by (auto simp: cache_inv_def less_Suc_eq)
  moreover have "dom (cmap ?c) = key_of ?c ` set (fresh c # rs)"
  proof -
    have "key_of ?c ` set rs = key_of c ` set rs"
      by (rule image_cong) (simp_all add: kr)
    moreover have "dom (cmap ?c) = insert k (dom (cmap c))" by simp
    moreover have "dom (cmap c) = key_of c ` set rs" using inv by (simp add: cache_inv_def)
    ultimately show ?thesis by (simp only: list.set image_insert kf key_of_update)
  qed
  moreover have "\<forall>r \<in> set (fresh c # rs). map_option ci_link (cmap ?c (key_of ?c r)) = Some r"
  proof
    fix r assume r: "r \<in> set (fresh c # rs)"
    show "map_option ci_link (cmap ?c (key_of ?c r)) = Some r"
    proof (cases "r = fresh c")
      case True
      then show ?thesis using lx by (simp add: kf)
    next
      case False
      with r have m: "r \<in> set rs" by simp
      then have "map_option ci_link (cmap c (key_of c r)) = Some r"
        using inv by (simp add: cache_inv_def)
      then show ?thesis using nk[OF m] by (simp add: kr[OF m])
    qed
  qed
  moreover have "csize ?c = sum_list (map (\<lambda>r. entry_size ?c (key_of ?c r)) (fresh c # rs))"
  proof -
    have "sum_list (map (\<lambda>r. entry_size ?c (key_of ?c r)) rs) =
          sum_list (map (\<lambda>r. entry_size c (key_of c r)) rs)"
      by (rule arg_cong[where f = sum_list], rule map_cong)
        (use nk in \<open>auto simp: kr entry_size_def\<close>)
    moreover have "entry_size ?c (key_of ?c (fresh c)) = sz"
      by (simp add: kf entry_size_def sx)
    moreover have "csize c = sum_list (map (\<lambda>r. entry_size c (key_of c r)) rs)"
      using inv by (simp add: cache_inv_def)
    moreover have "csize ?c = csize c + sz" by simp
    ultimately show ?thesis by (simp only: list.map sum_list.Cons)
  qed
  ultimately show ?thesis unfolding cache_inv_def by blast
qed

lemma cache_inv_update:
  assumes inv: "cache_inv c rs" and old: "cmap c k = Some x"
    and lx: "ci_link x' = ci_link x" and sx: "ci_size x' = sz"
  shows "cache_inv (c\<lparr>csize := csize c + (sz - ci_size x), cmap := (cmap c)(k \<mapsto> x')\<rparr>) rs"
proof -
  let ?c = "c\<lparr>csize := csize c + (sz - ci_size x), cmap := (cmap c)(k \<mapsto> x')\<rparr>"
  have kc: "key_of ?c = key_of c" by simp
  from cache_inv_link[OF inv old] have mem: "ci_link x \<in> set rs" and kl: "key_of c (ci_link x) = k"
    by simp_all
  have d: "distinct rs" using inv by (rule cache_inv_distinct)
  have inj: "inj_on (key_of c) (set rs)" using inv by (rule cache_inv_inj)
  have ne: "\<And>r. r \<in> set (remove1 (ci_link x) rs) \<Longrightarrow> key_of c r \<noteq> k"
    using inj mem d kl by (auto simp: inj_on_def)
  have "is_list (cells ?c) (lru ?c) rs" using inv by (simp add: cache_inv_def)
  moreover have "\<forall>r \<in> set rs. r < fresh ?c" using inv by (simp add: cache_inv_def)
  moreover have "dom (cmap ?c) = key_of ?c ` set rs"
    using inv old by (auto simp: kc cache_inv_def)
  moreover have "\<forall>r \<in> set rs. map_option ci_link (cmap ?c (key_of ?c r)) = Some r"
    using inv old lx by (auto simp: kc cache_inv_def)
  moreover have "csize ?c = sum_list (map (\<lambda>r. entry_size ?c (key_of ?c r)) rs)"
  proof -
    have a: "sum_list (map (\<lambda>r. entry_size c (key_of c r)) rs) =
        entry_size c (key_of c (ci_link x))
        + sum_list (map (\<lambda>r. entry_size c (key_of c r)) (remove1 (ci_link x) rs))"
      using mem by (rule sum_list_map_remove1)
    have b: "sum_list (map (\<lambda>r. entry_size ?c (key_of c r)) rs) =
        entry_size ?c (key_of c (ci_link x))
        + sum_list (map (\<lambda>r. entry_size ?c (key_of c r)) (remove1 (ci_link x) rs))"
      using mem by (rule sum_list_map_remove1)
    have e: "sum_list (map (\<lambda>r. entry_size ?c (key_of c r)) (remove1 (ci_link x) rs)) =
        sum_list (map (\<lambda>r. entry_size c (key_of c r)) (remove1 (ci_link x) rs))"
      by (rule arg_cong[where f = sum_list], rule map_cong)
        (use ne in \<open>auto simp: entry_size_def\<close>)
    have "entry_size c (key_of c (ci_link x)) = ci_size x" "entry_size ?c (key_of c (ci_link x)) = sz"
      using old sx by (simp_all add: kl entry_size_def)
    moreover have "csize c = sum_list (map (\<lambda>r. entry_size c (key_of c r)) rs)"
      using inv by (simp add: cache_inv_def)
    ultimately show ?thesis using a b e by (simp add: kc)
  qed
  ultimately show ?thesis unfolding cache_inv_def by blast
qed

lemma cache_inv_new: "cache_inv (ResponseCache_new limit) []"
  by (simp add: cache_inv_def ResponseCache_new_def is_list_def LinkedList_new_def)

section \<open>retv and one step of eviction\<close>

lemma map_remove1_inj:
  "inj_on f (set xs) \<Longrightarrow> x \<in> set xs \<Longrightarrow> map f (remove1 x xs) = remove1 (f x) (map f xs)"
  by (induction xs) (auto simp: inj_on_def)

lemma retv_miss: "cmap c k = None \<Longrightarrow> retv k now c = (None, c)"
  by (simp add: retv_def)

lemma retv_expired:
  assumes inv: "cache_inv c rs" and hit: "cmap c k = Some x"
    and ex: "js_lt (ci_expire x) (Num now)"
  shows "fst (retv k now c) = None"
    and "cache_inv (snd (retv k now c)) (remove1 (ci_link x) rs)"
    and "cmap (snd (retv k now c)) = (cmap c)(k := None)"
    and "csize (snd (retv k now c)) = csize c - ci_size x"
    and "sizeLimit (snd (retv k now c)) = sizeLimit c"
    and "key_of (snd (retv k now c)) = key_of c"
proof -
  let ?ca = "(c\<lparr>csize := csize c - ci_size x\<rparr>)\<lparr>cmap := (cmap c)(k := None)\<rparr>"
  have r: "retv k now c = (None, lru_remove (ci_link x) ?ca)"
    using hit ex by (simp add: retv_def Let_def)
  from cache_inv_link[OF inv hit] have mem: "ci_link x \<in> set rs"
    and kl: "key_of c (ci_link x) = k" by simp_all
  show "fst (retv k now c) = None" by (simp add: r)
  show "cache_inv (snd (retv k now c)) (remove1 (ci_link x) rs)"
    unfolding r snd_conv
    by (rule cache_inv_drop[OF inv mem]) (simp_all add: kl entry_size_def hit)
  show "cmap (snd (retv k now c)) = (cmap c)(k := None)" by (simp add: r)
  show "csize (snd (retv k now c)) = csize c - ci_size x" by (simp add: r)
  show "sizeLimit (snd (retv k now c)) = sizeLimit c" by (simp add: r)
  show "key_of (snd (retv k now c)) = key_of c" by (rule ext) (simp add: r)
qed

lemma retv_live:
  assumes inv: "cache_inv c rs" and hit: "cmap c k = Some x"
    and ex: "\<not> js_lt (ci_expire x) (Num now)"
  shows "fst (retv k now c) = Some (ci_data x)"
    and "cache_inv (snd (retv k now c)) (ci_link x # remove1 (ci_link x) rs)"
    and "cmap (snd (retv k now c)) = cmap c"
    and "csize (snd (retv k now c)) = csize c"
    and "sizeLimit (snd (retv k now c)) = sizeLimit c"
    and "key_of (snd (retv k now c)) = key_of c"
proof -
  have r: "retv k now c = (Some (ci_data x), lru_insert_item (ci_link x) (lru_remove (ci_link x) c))"
    using hit ex by (simp add: retv_def Let_def)
  from cache_inv_link[OF inv hit] have mem: "ci_link x \<in> set rs" by simp
  show "fst (retv k now c) = Some (ci_data x)" by (simp add: r)
  show "cache_inv (snd (retv k now c)) (ci_link x # remove1 (ci_link x) rs)"
    unfolding r snd_conv by (rule cache_inv_touch[OF inv mem])
  show "cmap (snd (retv k now c)) = cmap c" by (simp add: r)
  show "csize (snd (retv k now c)) = csize c" by (simp add: r)
  show "sizeLimit (snd (retv k now c)) = sizeLimit c" by (simp add: r)
  show "key_of (snd (retv k now c)) = key_of c" by (rule ext) (simp add: r)
qed

lemma retv_inv:
  assumes inv: "cache_inv c rs"
  shows "\<exists>rs'. cache_inv (snd (retv k now c)) rs' \<and> sizeLimit (snd (retv k now c)) = sizeLimit c"
proof (cases "cmap c k")
  case None
  then show ?thesis using inv by (auto simp: retv_miss)
next
  case (Some x)
  show ?thesis
  proof (cases "js_lt (ci_expire x) (Num now)")
    case True
    from retv_expired(2,5)[OF inv Some True] show ?thesis by blast
  next
    case False
    from retv_live(2,5)[OF inv Some False] show ?thesis by blast
  qed
qed

lemma evict_step_inv:
  assumes inv: "cache_inv c rs" and mem: "it \<in> set rs"
  shows "cache_inv (evict_step it c) (remove1 it rs)"
    and "csize (evict_step it c) = csize c - entry_size c (key_of c it)"
    and "cmap (evict_step it c) = (cmap c)(key_of c it := None)"
    and "sizeLimit (evict_step it c) = sizeLimit c"
    and "key_of (evict_step it c) = key_of c"
proof -
  from cache_inv_lookup[OF inv mem] obtain x where
    x: "cmap c (key_of c it) = Some x" by blast
  let ?ca = "(c\<lparr>csize := csize c - ci_size x\<rparr>)\<lparr>cmap := (cmap c)(key_of c it := None)\<rparr>"
  have e: "evict_step it c = lru_remove it ?ca"
    using x by (simp add: evict_step_def Let_def key_of_def)
  show "cache_inv (evict_step it c) (remove1 it rs)"
    unfolding e by (rule cache_inv_drop[OF inv mem]) (simp_all add: entry_size_def x)
  show "csize (evict_step it c) = csize c - entry_size c (key_of c it)"
    by (simp add: e entry_size_def x)
  show "cmap (evict_step it c) = (cmap c)(key_of c it := None)" by (simp add: e)
  show "sizeLimit (evict_step it c) = sizeLimit c" by (simp add: e)
  show "key_of (evict_step it c) = key_of c" by (rule ext) (simp add: e)
qed

section \<open>The eviction loop\<close>

lemma cache_inv_csize: "cache_inv c rs \<Longrightarrow> csize c = prefix_size c rs (length rs)"
  by (simp add: cache_inv_def prefix_size_def)

lemma evict_stop: "\<not> sizeLimit c < csize c \<Longrightarrow> evict c = Some c"
  by (subst evict.simps) simp

lemma evict_empty: "LinkedList_tail (lru c) = None \<Longrightarrow> evict c = Some c"
  by (subst evict.simps) simp

lemma evict_go:
  "sizeLimit c < csize c \<Longrightarrow> LinkedList_tail (lru c) = Some i \<Longrightarrow>
   evict c = evict (evict_step i c)"
  by (subst evict.simps) simp

lemma cache_inv_tail: "cache_inv c rs \<Longrightarrow> LinkedList_tail (lru c) = last_or rs None"
  by (rule LinkedList_tail_is_list[of "cells c"]) (simp add: cache_inv_def)

lemma cache_inv_dom: "cache_inv c rs \<Longrightarrow> (cmap c k = None) = (k \<notin> key_of c ` set rs)"
proof -
  assume "cache_inv c rs"
  then have "dom (cmap c) = key_of c ` set rs" by (simp add: cache_inv_def)
  then show ?thesis by (metis domIff)
qed

lemma evict_inv:
  "cache_inv c rs \<Longrightarrow>
   \<exists>n c'. evict c = Some c' \<and> n \<le> length rs \<and> cache_inv c' (take n rs)
      \<and> sizeLimit c' = sizeLimit c \<and> key_of c' = key_of c
      \<and> (\<forall>k. cmap c' k = (if k \<in> key_of c ` set (take n rs) then cmap c k else None))
      \<and> (0 \<le> sizeLimit c \<longrightarrow> csize c' \<le> sizeLimit c)
      \<and> (\<forall>m. n < m \<and> m \<le> length rs \<longrightarrow> sizeLimit c < prefix_size c rs m)"
proof (induction rs arbitrary: c rule: rev_induct)
  case Nil
  then have "evict c = Some c" by (simp add: evict_empty cache_inv_tail)
  moreover have "csize c = 0" using Nil by (simp add: cache_inv_def)
  moreover have "\<forall>k. cmap c k = None" using cache_inv_dom[OF Nil] by simp
  ultimately show ?case using Nil by (intro exI[of _ 0] exI[of _ c]) simp
next
  case (snoc r rs)
  note inv = snoc.prems
  show ?case
  proof (cases "sizeLimit c < csize c")
    case False
    then have "evict c = Some c" by (rule evict_stop)
    moreover have "\<forall>k. cmap c k = (if k \<in> key_of c ` set (rs @ [r]) then cmap c k else None)"
      using cache_inv_dom[OF inv] by simp
    ultimately show ?thesis using inv False
      by (intro exI[of _ "length (rs @ [r])"] exI[of _ c]) simp
  next
    case True
    let ?ca = "evict_step r c"
    have mem: "r \<in> set (rs @ [r])" by simp
    have d: "distinct (rs @ [r])" using inv by (rule cache_inv_distinct)
    then have rm: "remove1 r (rs @ [r]) = rs" by (simp add: remove1_append)
    have "LinkedList_tail (lru c) = Some r" using inv by (simp add: cache_inv_tail last_or_nonempty)
    with True have ev: "evict c = evict ?ca" by (rule evict_go)
    note st = evict_step_inv[OF inv mem]
    have inv2: "cache_inv ?ca rs" using st(1) by (simp only: rm)
    from snoc.IH[OF inv2] obtain n c' where
      e: "evict ?ca = Some c'" and n: "n \<le> length rs" and i: "cache_inv c' (take n rs)"
      and sl: "sizeLimit c' = sizeLimit ?ca" and ko: "key_of c' = key_of ?ca"
      and cm: "\<forall>k. cmap c' k = (if k \<in> key_of ?ca ` set (take n rs) then cmap ?ca k else None)"
      and bd: "0 \<le> sizeLimit ?ca \<longrightarrow> csize c' \<le> sizeLimit ?ca"
      and mx: "\<forall>m. n < m \<and> m \<le> length rs \<longrightarrow> sizeLimit ?ca < prefix_size ?ca rs m"
      by blast
    have inj: "inj_on (key_of c) (set (rs @ [r]))" using inv by (rule cache_inv_inj)
    have nk: "\<And>r'. r' \<in> set rs \<Longrightarrow> key_of c r' \<noteq> key_of c r"
      using inj d by (auto simp: inj_on_def)
    have tk: "take n (rs @ [r]) = take n rs" using n by simp
    have cm': "\<forall>k. cmap c' k = (if k \<in> key_of c ` set (take n (rs @ [r])) then cmap c k else None)"
    proof
      fix k
      show "cmap c' k = (if k \<in> key_of c ` set (take n (rs @ [r])) then cmap c k else None)"
      proof (cases "k \<in> key_of c ` set (take n rs)")
        case True
        then obtain r' where "r' \<in> set (take n rs)" "k = key_of c r'" by auto
        then have "k \<noteq> key_of c r" using nk in_set_takeD by fastforce
        then show ?thesis using cm True by (simp add: st tk del: take_append)
      next
        case False
        then show ?thesis using cm by (simp add: st tk del: take_append)
      qed
    qed
    have ps: "\<And>m. m \<le> length rs \<Longrightarrow> prefix_size ?ca rs m = prefix_size c (rs @ [r]) m"
    proof -
      fix m assume m: "m \<le> length rs"
      have "sum_list (map (\<lambda>r'. entry_size ?ca (key_of c r')) (take m rs)) =
            sum_list (map (\<lambda>r'. entry_size c (key_of c r')) (take m rs))"
        by (rule arg_cong[where f = sum_list], rule map_cong)
          (use nk in \<open>auto simp: entry_size_def st dest: in_set_takeD\<close>)
      then show "prefix_size ?ca rs m = prefix_size c (rs @ [r]) m"
        using m by (simp add: prefix_size_def st)
    qed
    have mx': "\<forall>m. n < m \<and> m \<le> length (rs @ [r]) \<longrightarrow> sizeLimit c < prefix_size c (rs @ [r]) m"
    proof (intro allI impI)
      fix m assume m: "n < m \<and> m \<le> length (rs @ [r])"
      show "sizeLimit c < prefix_size c (rs @ [r]) m"
      proof (cases "m \<le> length rs")
        case True
        from mx m True have "sizeLimit ?ca < prefix_size ?ca rs m" by blast
        then show ?thesis using ps[OF True] by (simp add: st)
      next
        case False
        with m have "m = length (rs @ [r])" by simp
        then show ?thesis using cache_inv_csize[OF inv] \<open>sizeLimit c < csize c\<close> by simp
      qed
    qed
    show ?thesis
      using e n i sl ko bd cm' mx'
      by (intro exI[of _ n] exI[of _ c']) (simp add: ev tk st del: take_append)
  qed
qed

section \<open>The LRU order and stor\<close>

lemma walk_dseg:
  "dseg h p xs None \<Longrightarrow> length xs \<le> n \<Longrightarrow> walk n h (first_or xs None) = xs"
proof (induction xs arbitrary: n p)
  case Nil
  then show ?case by (cases n) simp_all
next
  case (Cons x xs)
  then obtain n' where n: "n = Suc n'" by (cases n) auto
  from Cons.prems have "item_next (h x) = first_or xs None" "dseg h (Some x) xs None"
    by simp_all
  with Cons.IH[of "Some x" n'] Cons.prems(2) n show ?case by simp
qed

lemma cache_inv_length: "cache_inv c rs \<Longrightarrow> length rs \<le> fresh c"
proof -
  assume inv: "cache_inv c rs"
  then have "distinct rs" "set rs \<subseteq> {..<fresh c}" by (auto simp: cache_inv_def is_list_def)
  then have "card (set rs) \<le> card {..<fresh c}" by (intro card_mono) simp_all
  with \<open>distinct rs\<close> show ?thesis by (simp add: distinct_card)
qed

lemma cache_inv_walk: "cache_inv c rs \<Longrightarrow> walk (fresh c) (cells c) (ll_head (lru c)) = rs"
proof -
  assume inv: "cache_inv c rs"
  then have "dseg (cells c) None rs None" "ll_head (lru c) = first_or rs None"
    by (simp_all add: cache_inv_def is_list_def)
  with cache_inv_length[OF inv] show ?thesis by (simp add: walk_dseg)
qed

lemma cache_inv_keys: "cache_inv c rs \<Longrightarrow> lru_keys c = map (key_of c) rs"
  by (simp add: lru_keys_def cache_inv_walk key_of_def)

lemma cache_inv_keys_distinct: "cache_inv c rs \<Longrightarrow> distinct (map (key_of c) rs)"
  by (simp add: distinct_map cache_inv_inj cache_inv_distinct)

lemma cache_inv_entries_size: "cache_inv c rs \<Longrightarrow> csize c = entries_size c"
proof -
  assume inv: "cache_inv c rs"
  have "csize c = sum_list (map (entry_size c) (map (key_of c) rs))"
    using inv by (simp add: cache_inv_def comp_def)
  also have "\<dots> = sum (entry_size c) (set (map (key_of c) rs))"
    using cache_inv_keys_distinct[OF inv] by (rule sum_list_distinct_conv_sum_set)
  also have "set (map (key_of c) rs) = dom (cmap c)"
    using inv by (simp add: cache_inv_def)
  finally show ?thesis by (simp add: entries_size_def)
qed

lemma stor_entry_present:
  assumes inv: "cache_inv c rs" and old: "cmap c k = Some x"
  shows "cache_inv (stor_entry k d sz e c) rs"
    and "stor_entry k d sz e c =
      c\<lparr>csize := csize c + (sz - ci_size x),
        cmap := (cmap c)(k \<mapsto> x\<lparr>ci_data := d, ci_size := sz, ci_expire := e\<rparr>)\<rparr>"
proof -
  show e: "stor_entry k d sz e c =
      c\<lparr>csize := csize c + (sz - ci_size x),
        cmap := (cmap c)(k \<mapsto> x\<lparr>ci_data := d, ci_size := sz, ci_expire := e\<rparr>)\<rparr>"
    using old by (simp add: stor_entry_def)
  show "cache_inv (stor_entry k d sz e c) rs"
    unfolding e by (rule cache_inv_update[OF inv old]) simp_all
qed

lemma stor_entry_absent:
  assumes inv: "cache_inv c rs" and new: "cmap c k = None"
  shows "cache_inv (stor_entry k d sz e c) (fresh c # rs)"
    and "cmap (stor_entry k d sz e c) =
      (cmap c)(k \<mapsto> \<lparr>ci_data = d, ci_size = sz, ci_id = k, ci_expire = e, ci_link = fresh c\<rparr>)"
    and "key_of (stor_entry k d sz e c) (fresh c) = k"
    and "\<And>r. r \<in> set rs \<Longrightarrow> key_of (stor_entry k d sz e c) r = key_of c r"
proof -
  let ?x = "\<lparr>ci_data = d, ci_size = sz, ci_id = k, ci_expire = e, ci_link = fresh c\<rparr>"
  let ?cb = "snd (lru_insert_value k (c\<lparr>csize := csize c + sz\<rparr>))"
  have e: "stor_entry k d sz e c = ?cb\<lparr>cmap := (cmap ?cb)(k \<mapsto> ?x)\<rparr>"
    using new by (simp add: stor_entry_def Let_def case_prod_beta)
  show "cache_inv (stor_entry k d sz e c) (fresh c # rs)"
    unfolding e by (rule cache_inv_add[OF inv new]) simp_all
  show "cmap (stor_entry k d sz e c) = (cmap c)(k \<mapsto> ?x)" by (simp add: e)
  show "key_of (stor_entry k d sz e c) (fresh c) = k"
    by (simp add: e key_of_lru_insert_value)
  fix r assume "r \<in> set rs"
  then have "r \<noteq> fresh c" using inv by (auto simp: cache_inv_def)
  then show "key_of (stor_entry k d sz e c) r = key_of c r"
    by (simp add: e key_of_lru_insert_value)
qed

lemma stor_entry_sizeLimit [simp]: "sizeLimit (stor_entry k d sz e c) = sizeLimit c"
  by (simp add: stor_entry_def Let_def case_prod_beta split: option.splits)

lemma stor_inv:
  fixes k :: string and d :: 'd and sz :: int and e :: jsnum and c :: "'d ResponseCache"
  assumes inv: "cache_inv c rs"
  defines "ca \<equiv> stor_entry k d sz e c"
  defines "rsa \<equiv> (if cmap c k = None then fresh c # rs else rs)"
  shows "\<exists>c' n. stor k d sz e c = Some c' \<and> cache_inv ca rsa \<and> n \<le> length rsa
      \<and> cache_inv c' (take n rsa) \<and> sizeLimit c' = sizeLimit c \<and> key_of c' = key_of ca
      \<and> (\<forall>k'. cmap c' k' = (if k' \<in> key_of ca ` set (take n rsa) then cmap ca k' else None))
      \<and> (0 < sizeLimit c \<longrightarrow> csize c' \<le> sizeLimit c
            \<and> (\<forall>m. n < m \<and> m \<le> length rsa \<longrightarrow> sizeLimit c < prefix_size ca rsa m))
      \<and> (\<not> 0 < sizeLimit c \<longrightarrow> c' = ca \<and> n = length rsa)"
proof -
  have inva: "cache_inv ca rsa"
  proof (cases "cmap c k")
    case None
    then show ?thesis using stor_entry_absent(1)[OF inv None] by (simp add: ca_def rsa_def)
  next
    case (Some x)
    then show ?thesis using stor_entry_present(1)[OF inv Some] by (simp add: ca_def rsa_def)
  qed
  have sl: "sizeLimit ca = sizeLimit c" by (simp add: ca_def)
  show ?thesis
  proof (cases "0 < sizeLimit c")
    case True
    then have st: "stor k d sz e c = evict ca" by (simp add: stor_def ca_def)
    from evict_inv[OF inva] obtain n c' where
      "evict ca = Some c'" "n \<le> length rsa" "cache_inv c' (take n rsa)"
      "sizeLimit c' = sizeLimit ca" "key_of c' = key_of ca"
      "\<forall>k'. cmap c' k' = (if k' \<in> key_of ca ` set (take n rsa) then cmap ca k' else None)"
      "0 \<le> sizeLimit ca \<longrightarrow> csize c' \<le> sizeLimit ca"
      "\<forall>m. n < m \<and> m \<le> length rsa \<longrightarrow> sizeLimit ca < prefix_size ca rsa m"
      by blast
    with inva True show ?thesis
      by (intro exI[of _ c'] exI[of _ n]) (simp add: st sl)
  next
    case False
    then have st: "stor k d sz e c = Some ca" by (simp add: stor_def ca_def)
    have "\<forall>k'. cmap ca k' = (if k' \<in> key_of ca ` set rsa then cmap ca k' else None)"
      using cache_inv_dom[OF inva] by simp
    with inva False show ?thesis
      by (intro exI[of _ ca] exI[of _ "length rsa"]) (simp add: st sl)
  qed
qed

lemma run_ops_inv:
  "cache_inv c rs \<Longrightarrow>
   \<exists>c' rs'. run_ops ops c = Some c' \<and> cache_inv c' rs' \<and> sizeLimit c' = sizeLimit c"
proof (induction ops arbitrary: c rs)
  case Nil
  then show ?case by auto
next
  case (Cons x ops)
  have "\<exists>c1 rs1. apply_op x c = Some c1 \<and> cache_inv c1 rs1 \<and> sizeLimit c1 = sizeLimit c"
  proof (cases x)
    case (Stor k d sz e)
    from stor_inv[OF Cons.prems, of k d sz e] show ?thesis by (auto simp: Stor)
  next
    case (Retv k now)
    from retv_inv[OF Cons.prems, of k now] show ?thesis by (auto simp: Retv)
  qed
  then obtain c1 rs1 where a: "apply_op x c = Some c1" "cache_inv c1 rs1"
    "sizeLimit c1 = sizeLimit c" by blast
  from Cons.IH[OF a(2)] a show ?case by auto
qed

lemma reachable_inv:
  "\<exists>c rs. run_ops ops (ResponseCache_new limit) = Some c \<and> cache_inv c rs \<and> sizeLimit c = limit"
  using run_ops_inv[OF cache_inv_new, of ops limit] by (simp add: ResponseCache_new_def)

lemma stor_entry_keys:
  assumes inv: "cache_inv c rs"
  shows "lru_keys (stor_entry k d sz e c) = (if cmap c k = None then k # lru_keys c else lru_keys c)"
proof (cases "cmap c k")
  case None
  have "map (key_of (stor_entry k d sz e c)) rs = map (key_of c) rs"
    by (rule map_cong) (simp_all add: stor_entry_absent(4)[OF inv None])
  then show ?thesis
    using None
    by (simp add: cache_inv_keys[OF stor_entry_absent(1)[OF inv None]]
        stor_entry_absent(3)[OF inv None] cache_inv_keys[OF inv])
next
  case (Some x)
  have "key_of (stor_entry k d sz e c) = key_of c"
    by (simp add: stor_entry_present(2)[OF inv Some])
  then show ?thesis
    using Some by (simp add: cache_inv_keys[OF stor_entry_present(1)[OF inv Some]] cache_inv_keys[OF inv])
qed

lemma entry_size_stor_entry:
  assumes inv: "cache_inv c rs"
  shows "entry_size (stor_entry k d sz e c) k' = (if k' = k then sz else entry_size c k')"
proof (cases "cmap c k")
  case None
  show ?thesis by (simp add: entry_size_def stor_entry_absent(2)[OF inv None])
next
  case (Some x)
  show ?thesis by (simp add: entry_size_def stor_entry_present(2)[OF inv Some])
qed

section \<open>The claims about the cache\<close>

text \<open>
  C1 (as amended). Every sequence of \<open>stor\<close> and \<open>retv\<close> operations on a cache created with
  a positive \<open>sizeLimit\<close> runs to a cache \<open>c\<close> whose recorded size is the sum of the sizes of
  its entries. The list of the cache is ordered as the code moves its items: \<open>stor\<close> puts a
  new key at the head and leaves a present key where it is, and \<open>retv\<close> of an unexpired entry
  moves it to the head. Every further \<open>stor\<close> returns a cache \<open>c'\<close> whose recorded size is
  again the sum of the sizes of its entries and is at most the limit. Its list is a prefix of
  the list that \<open>stor\<close> had before its eviction loop, so the evicted entries are those at the
  tail of that list; the entries left are exactly those of the prefix, unchanged; and the
  prefix is the longest one whose total size fits, which is a condition on the position in
  the list and on sizes only: expiry times play no part.
\<close>

theorem stor_size_bound_tail_eviction:
  assumes pos: "0 < limit"
  shows "\<exists>c. run_ops ops (ResponseCache_new limit) = Some c \<and> csize c = entries_size c
     \<and> lru_keys (stor_entry k d sz e c) = (if cmap c k = None then k # lru_keys c else lru_keys c)
     \<and> (\<forall>x now. cmap c k = Some x \<and> \<not> js_lt (ci_expire x) (Num now) \<longrightarrow>
            lru_keys (snd (retv k now c)) = k # remove1 k (lru_keys c))
     \<and> (\<exists>c' n. stor k d sz e c = Some c'
          \<and> csize c' = entries_size c' \<and> csize c' \<le> limit \<and> sizeLimit c' = limit
          \<and> lru_keys c' = take n (lru_keys (stor_entry k d sz e c))
          \<and> dom (cmap c') = set (lru_keys c')
          \<and> (\<forall>k' \<in> set (lru_keys c'). cmap c' k' = cmap (stor_entry k d sz e c) k')
          \<and> (\<forall>m. n < m \<and> m \<le> length (lru_keys (stor_entry k d sz e c)) \<longrightarrow>
                limit < sum_list (map (entry_size (stor_entry k d sz e c))
                                   (take m (lru_keys (stor_entry k d sz e c))))))"
proof -
  from reachable_inv[of ops limit] obtain c rs where
    r: "run_ops ops (ResponseCache_new limit) = Some c" and inv: "cache_inv c rs"
    and sl: "sizeLimit c = limit" by blast
  define ca where "ca = stor_entry k d sz e c"
  define rsa where "rsa = (if cmap c k = None then fresh c # rs else rs)"
  from stor_inv[OF inv, of k d sz e] pos obtain c' n where
    st: "stor k d sz e c = Some c'" and inva: "cache_inv ca rsa" and n: "n \<le> length rsa"
    and inv': "cache_inv c' (take n rsa)" and sl': "sizeLimit c' = limit"
    and ko: "key_of c' = key_of ca" and bd: "csize c' \<le> limit"
    and cm: "\<forall>k'. cmap c' k' = (if k' \<in> key_of ca ` set (take n rsa) then cmap ca k' else None)"
    and mx: "\<forall>m. n < m \<and> m \<le> length rsa \<longrightarrow> limit < prefix_size ca rsa m"
    unfolding ca_def rsa_def sl by blast
  have ka: "lru_keys ca = map (key_of ca) rsa" by (rule cache_inv_keys[OF inva])
  have ord: "lru_keys ca = (if cmap c k = None then k # lru_keys c else lru_keys c)"
    unfolding ca_def by (rule stor_entry_keys[OF inv])
  have keys: "lru_keys c' = take n (lru_keys ca)"
    by (simp add: cache_inv_keys[OF inv'] ko ka take_map)
  have dm: "dom (cmap c') = set (lru_keys c')"
    using inv' by (simp add: cache_inv_def cache_inv_keys[OF inv'])
  have same: "\<forall>k' \<in> set (lru_keys c'). cmap c' k' = cmap ca k'"
    using cm by (simp add: cache_inv_keys[OF inv'] ko)
  have ps: "\<And>m. prefix_size ca rsa m = sum_list (map (entry_size ca) (take m (lru_keys ca)))"
    by (simp add: prefix_size_def take_map comp_def ka)
  have len: "length rsa = length (lru_keys ca)" by (simp add: ka)
  have mx': "\<forall>m. n < m \<and> m \<le> length (lru_keys ca) \<longrightarrow>
      limit < sum_list (map (entry_size ca) (take m (lru_keys ca)))"
    using mx by (simp add: ps len)
  have live: "\<forall>x now. cmap c k = Some x \<and> \<not> js_lt (ci_expire x) (Num now) \<longrightarrow>
      lru_keys (snd (retv k now c)) = k # remove1 k (lru_keys c)"
  proof (intro allI impI)
    fix x now assume a: "cmap c k = Some x \<and> \<not> js_lt (ci_expire x) (Num now)"
    note l = retv_live[OF inv conjunct1[OF a] conjunct2[OF a]]
    from cache_inv_link[OF inv conjunct1[OF a]] have mem: "ci_link x \<in> set rs"
      and kl: "key_of c (ci_link x) = k" by simp_all
    show "lru_keys (snd (retv k now c)) = k # remove1 k (lru_keys c)"
      using map_remove1_inj[OF cache_inv_inj[OF inv] mem]
      by (simp add: cache_inv_keys[OF l(2)] l(6) cache_inv_keys[OF inv] kl)
  qed
  have "\<exists>c' n. stor k d sz e c = Some c'
          \<and> csize c' = entries_size c' \<and> csize c' \<le> limit \<and> sizeLimit c' = limit
          \<and> lru_keys c' = take n (lru_keys ca)
          \<and> dom (cmap c') = set (lru_keys c')
          \<and> (\<forall>k' \<in> set (lru_keys c'). cmap c' k' = cmap ca k')
          \<and> (\<forall>m. n < m \<and> m \<le> length (lru_keys ca) \<longrightarrow>
                limit < sum_list (map (entry_size ca) (take m (lru_keys ca))))"
    using st cache_inv_entries_size[OF inv'] bd sl' keys dm same mx' by blast
  with r cache_inv_entries_size[OF inv] ord live show ?thesis
    unfolding ca_def by blast
qed

text \<open>
  C3 (as amended). A \<open>stor\<close> whose key is already present in a reachable cache replaces the
  descriptor, the size and the expiry of the entry and leaves the LRU list as it is: the
  order afterwards is a prefix of the order before (the entry is not moved to the head), and
  when no eviction is needed (no positive limit, or the adjusted size fits) the cache
  afterwards is the cache before with only its size, adjusted by the difference of the new
  and old entry sizes, and the map entry changed.
\<close>

theorem stor_present_keeps_position:
  assumes r: "run_ops ops (ResponseCache_new limit) = Some c" and old: "cmap c k = Some x"
  shows "\<exists>c' n. stor k d sz e c = Some c' \<and> lru_keys c' = take n (lru_keys c)
     \<and> (\<forall>k'. cmap c' k' =
           (if k' \<in> set (take n (lru_keys c))
            then (if k' = k then Some (x\<lparr>ci_data := d, ci_size := sz, ci_expire := e\<rparr>)
                  else cmap c k')
            else None))
     \<and> (limit \<le> 0 \<or> csize c + (sz - ci_size x) \<le> limit \<longrightarrow>
          c' = c\<lparr>csize := csize c + (sz - ci_size x),
                 cmap := (cmap c)(k \<mapsto> x\<lparr>ci_data := d, ci_size := sz, ci_expire := e\<rparr>)\<rparr>)"
proof -
  from reachable_inv[of ops limit] r obtain rs where
    inv: "cache_inv c rs" and sl: "sizeLimit c = limit" by auto
  define ca where "ca = stor_entry k d sz e c"
  have ca: "ca = c\<lparr>csize := csize c + (sz - ci_size x),
        cmap := (cmap c)(k \<mapsto> x\<lparr>ci_data := d, ci_size := sz, ci_expire := e\<rparr>)\<rparr>"
    unfolding ca_def by (rule stor_entry_present(2)[OF inv old])
  have kca: "key_of ca = key_of c" by (simp add: ca)
  from stor_inv[OF inv, of k d sz e] old obtain c' n where
    st: "stor k d sz e c = Some c'" and n: "n \<le> length rs"
    and inv': "cache_inv c' (take n rs)" and ko: "key_of c' = key_of ca"
    and cm: "\<forall>k'. cmap c' k' = (if k' \<in> key_of ca ` set (take n rs) then cmap ca k' else None)"
    unfolding ca_def by auto
  have keys: "lru_keys c' = take n (lru_keys c)"
    by (simp add: cache_inv_keys[OF inv'] cache_inv_keys[OF inv] ko kca take_map)
  have st2: "set (take n (lru_keys c)) = key_of ca ` set (take n rs)"
    by (simp add: cache_inv_keys[OF inv] kca take_map)
  have cm': "\<forall>k'. cmap c' k' =
           (if k' \<in> set (take n (lru_keys c))
            then (if k' = k then Some (x\<lparr>ci_data := d, ci_size := sz, ci_expire := e\<rparr>)
                  else cmap c k')
            else None)"
    unfolding st2 using cm by (simp add: ca)
  have ne: "limit \<le> 0 \<or> csize c + (sz - ci_size x) \<le> limit \<longrightarrow> c' = ca"
  proof
    assume a: "limit \<le> 0 \<or> csize c + (sz - ci_size x) \<le> limit"
    have "stor k d sz e c = Some ca"
    proof (cases "0 < limit")
      case True
      with a have "\<not> sizeLimit ca < csize ca" by (simp add: ca sl)
      then have "evict ca = Some ca" by (rule evict_stop)
      then show ?thesis using True by (simp add: stor_def ca_def[symmetric] ca sl)
    next
      case False
      then show ?thesis by (simp add: stor_def ca_def[symmetric] ca sl)
    qed
    with st show "c' = ca" by simp
  qed
  show ?thesis using st keys cm' ne unfolding ca by blast
qed

text \<open>
  C9. In a reachable cache, \<open>retv\<close> of an absent key reports absent and returns the cache
  unchanged; \<open>retv\<close> of an entry whose expiry is strictly before the current time reports
  absent, removes the key from the map and from the LRU list, and decreases the recorded
  size by the entry's size.
\<close>

theorem retv_expired_or_absent:
  assumes r: "run_ops ops (ResponseCache_new limit) = Some c"
  shows "(cmap c k = None \<longrightarrow> retv k now c = (None, c))
     \<and> (\<forall>x. cmap c k = Some x \<and> js_lt (ci_expire x) (Num now) \<longrightarrow>
          fst (retv k now c) = None
          \<and> cmap (snd (retv k now c)) = (cmap c)(k := None)
          \<and> lru_keys (snd (retv k now c)) = remove1 k (lru_keys c)
          \<and> k \<in> set (lru_keys c) \<and> k \<notin> set (lru_keys (snd (retv k now c)))
          \<and> csize (snd (retv k now c)) = csize c - ci_size x)"
proof (intro conjI impI allI)
  assume "cmap c k = None"
  then show "retv k now c = (None, c)" by (rule retv_miss)
next
  fix x assume a: "cmap c k = Some x \<and> js_lt (ci_expire x) (Num now)"
  from reachable_inv[of ops limit] r obtain rs where inv: "cache_inv c rs" by auto
  note e = retv_expired[OF inv conjunct1[OF a] conjunct2[OF a]]
  from cache_inv_link[OF inv conjunct1[OF a]] have mem: "ci_link x \<in> set rs"
    and kl: "key_of c (ci_link x) = k" by simp_all
  have keys: "lru_keys (snd (retv k now c)) = remove1 k (lru_keys c)"
    using map_remove1_inj[OF cache_inv_inj[OF inv] mem]
    by (simp add: cache_inv_keys[OF e(2)] e(6) cache_inv_keys[OF inv] kl)
  have dk: "distinct (lru_keys c)"
    using cache_inv_keys_distinct[OF inv] by (simp add: cache_inv_keys[OF inv])
  show "fst (retv k now c) = None" by (rule e(1))
  show "cmap (snd (retv k now c)) = (cmap c)(k := None)" by (rule e(3))
  show "lru_keys (snd (retv k now c)) = remove1 k (lru_keys c)" by (rule keys)
  show "k \<in> set (lru_keys c)" using mem kl by (auto simp: cache_inv_keys[OF inv])
  show "k \<notin> set (lru_keys (snd (retv k now c)))" using dk by (simp add: keys)
  show "csize (snd (retv k now c)) = csize c - ci_size x" by (rule e(4))
qed

text \<open>The equations that evaluate a run of cache operations on concrete arguments.\<close>

lemmas cache_eval =
  run_ops.simps apply_op.simps stor_def stor_entry_def retv_def evict.simps evict_step_def
  lru_insert_value_def lru_insert_item_def lru_remove_def
  LinkedList_insert_value_def LinkedList_insert_item_def LinkedList_link_first_def
  LinkedList_remove_def remove_unlink_prev_def remove_unlink_next_def remove_fix_tail_def
  remove_fix_head_def remove_clear_def LinkedList_tail_def LinkedList_new_def
  ResponseCache_new_def lru_keys_def Let_def

lemma walk_numeral: "walk (numeral n) h p = walk (Suc (pred_numeral n)) h p"
  by (simp add: numeral_eq_Suc)

text \<open>
  C3 as stated fails: after A and B are stored, storing A again leaves B at the head of the
  LRU list and A at its tail.
\<close>

theorem stor_present_not_moved:
  "\<exists>c c'. run_ops [Stor ''A'' () 400 (Num 5), Stor ''B'' () 400 (Num 5)] (ResponseCache_new 1000) = Some c
     \<and> cmap c ''A'' \<noteq> None
     \<and> stor ''A'' () 400 (Num 9) c = Some c'
     \<and> lru_keys c' = [''B'', ''A'']"
  by (simp add: cache_eval walk_numeral)

text \<open>
  C1 as stated fails: with limit 1000, after A and B are stored with 400 bytes each, storing
  A again with 700 bytes makes A the most recently used entry and B the least recently used
  one in the recency order of the specification; the loop evicts A, the entry just written,
  and keeps B.
\<close>

theorem stor_evicts_rewritten_entry:
  "\<exists>c c'. run_ops [Stor ''A'' () 400 (Num 5), Stor ''B'' () 400 (Num 5)] (ResponseCache_new 1000) = Some c
     \<and> lru_keys c = [''B'', ''A'']
     \<and> spec_put_order ''A'' (lru_keys c) = [''A'', ''B'']
     \<and> stor ''A'' () 700 (Num 5) c = Some c'
     \<and> lru_keys c' = [''B''] \<and> cmap c' ''A'' = None \<and> cmap c' ''B'' \<noteq> None \<and> csize c' = 400"
  by (simp add: cache_eval walk_numeral spec_put_order_def)

theorem stor_size_bound_tail_eviction_witness:
  "0 < (1000::int)
   \<and> (\<exists>c. run_ops [Stor ''A'' () 600 (Num 5), Stor ''B'' () 300 (Num 5)] (ResponseCache_new 1000) = Some c
        \<and> csize c = entries_size c
        \<and> lru_keys (stor_entry ''C'' () 200 (Num 5) c) = [''C'', ''B'', ''A'']
        \<and> (\<exists>c' n. stor ''C'' () 200 (Num 5) c = Some c'
              \<and> csize c' = entries_size c' \<and> csize c' \<le> 1000
              \<and> lru_keys c' = take n (lru_keys (stor_entry ''C'' () 200 (Num 5) c))
              \<and> dom (cmap c') = set (lru_keys c')
              \<and> lru_keys c' = [''C'', ''B''] \<and> csize c' = 500))"
proof -
  have ev: "\<exists>c c'. run_ops [Stor ''A'' () 600 (Num 5), Stor ''B'' () 300 (Num 5)]
                 (ResponseCache_new 1000) = Some c
      \<and> cmap c ''C'' = None \<and> lru_keys c = [''B'', ''A'']
      \<and> stor ''C'' () 200 (Num 5) c = Some c'
      \<and> lru_keys c' = [''C'', ''B''] \<and> csize c' = 500"
    by (simp add: cache_eval walk_numeral)
  then obtain c c' where r: "run_ops [Stor ''A'' () 600 (Num 5), Stor ''B'' () 300 (Num 5)]
                 (ResponseCache_new 1000) = Some c"
    and a: "cmap c ''C'' = None" "lru_keys c = [''B'', ''A'']"
    and s: "stor ''C'' () 200 (Num 5) c = Some c'"
    and v: "lru_keys c' = [''C'', ''B'']" "csize c' = 500"
    by blast
  have pos: "0 < (1000::int)" by simp
  from stor_size_bound_tail_eviction[OF pos,
      of "[Stor ''A'' () 600 (Num 5), Stor ''B'' () 300 (Num 5)]" "''C''" "()" 200 "Num 5"]
  obtain n where f: "csize c = entries_size c"
    "lru_keys (stor_entry ''C'' () 200 (Num 5) c) =
       (if cmap c ''C'' = None then ''C'' # lru_keys c else lru_keys c)"
    "csize c' = entries_size c'" "csize c' \<le> 1000"
    "lru_keys c' = take n (lru_keys (stor_entry ''C'' () 200 (Num 5) c))"
    "dom (cmap c') = set (lru_keys c')"
    unfolding r using s by auto
  from f(2) a have o: "lru_keys (stor_entry ''C'' () 200 (Num 5) c) = [''C'', ''B'', ''A'']"
    by simp
  from pos r s v f(1,3,4,5,6) o show ?thesis by blast
qed

theorem stor_present_keeps_position_witness:
  "\<exists>c x. run_ops [Stor ''A'' () 400 (Num 5), Stor ''B'' () 400 (Num 5)] (ResponseCache_new 1000) = Some c
     \<and> cmap c ''A'' = Some x
     \<and> (\<exists>c' n. stor ''A'' () 300 (Num 9) c = Some c'
           \<and> lru_keys c' = take n (lru_keys c)
           \<and> lru_keys c' = [''B'', ''A'']
           \<and> cmap c' ''A'' = Some (x\<lparr>ci_data := (), ci_size := 300, ci_expire := Num 9\<rparr>)
           \<and> csize c' = 700)"
proof -
  have ev: "\<exists>c x c'. run_ops [Stor ''A'' () 400 (Num 5), Stor ''B'' () 400 (Num 5)]
                 (ResponseCache_new 1000) = Some c
      \<and> cmap c ''A'' = Some x
      \<and> stor ''A'' () 300 (Num 9) c = Some c'
      \<and> lru_keys c' = [''B'', ''A'']
      \<and> cmap c' ''A'' = Some (x\<lparr>ci_data := (), ci_size := 300, ci_expire := Num 9\<rparr>)
      \<and> csize c' = 700"
    by (simp add: cache_eval walk_numeral)
  then obtain c x c' where r: "run_ops [Stor ''A'' () 400 (Num 5), Stor ''B'' () 400 (Num 5)]
                 (ResponseCache_new 1000) = Some c"
    and o: "cmap c ''A'' = Some x"
    and rest: "stor ''A'' () 300 (Num 9) c = Some c'" "lru_keys c' = [''B'', ''A'']"
      "cmap c' ''A'' = Some (x\<lparr>ci_data := (), ci_size := 300, ci_expire := Num 9\<rparr>)"
      "csize c' = 700"
    by blast
  from stor_present_keeps_position[OF r o, of "()" 300 "Num 9"]
  obtain n where "lru_keys c' = take n (lru_keys c)"
    using rest(1) by auto
  with r o rest show ?thesis by blast
qed

theorem retv_expired_or_absent_witness:
  "\<exists>c x. run_ops [Stor ''K'' () 100 (Num 4)] (ResponseCache_new 1000) = Some c
     \<and> cmap c ''K'' = Some x \<and> js_lt (ci_expire x) (Num 5)
     \<and> fst (retv ''K'' 5 c) = None
     \<and> cmap (snd (retv ''K'' 5 c)) = (cmap c)(''K'' := None)
     \<and> lru_keys (snd (retv ''K'' 5 c)) = remove1 ''K'' (lru_keys c)
     \<and> csize (snd (retv ''K'' 5 c)) = csize c - 100
     \<and> cmap c ''Z'' = None \<and> retv ''Z'' 5 c = (None, c)"
proof -
  have ev: "\<exists>c x. run_ops [Stor ''K'' () 100 (Num 4)] (ResponseCache_new 1000) = Some c
      \<and> cmap c ''K'' = Some x \<and> js_lt (ci_expire x) (Num 5) \<and> ci_size x = 100
      \<and> cmap c ''Z'' = None"
    by (simp add: cache_eval)
  then obtain c x where r: "run_ops [Stor ''K'' () 100 (Num 4)] (ResponseCache_new 1000) = Some c"
    and o: "cmap c ''K'' = Some x" "js_lt (ci_expire x) (Num 5)" "ci_size x = 100"
      "cmap c ''Z'' = None"
    by blast
  from retv_expired_or_absent[OF r, of "''K''" 5] o
  have a: "fst (retv ''K'' 5 c) = None" "cmap (snd (retv ''K'' 5 c)) = (cmap c)(''K'' := None)"
    "lru_keys (snd (retv ''K'' 5 c)) = remove1 ''K'' (lru_keys c)"
    "csize (snd (retv ''K'' 5 c)) = csize c - 100"
    by simp_all
  from retv_expired_or_absent[OF r, of "''Z''" 5] o
  have b: "retv ''Z'' 5 c = (None, c)" by simp
  from r o a b show ?thesis by blast
qed

section \<open>Hook names: the pattern\<close>

lemma underscore_not_letter: "\<not> isLetter CHR ''_''"
  by (simp add: isLetter_def)

lemma takeWhile_letters:
  "\<forall>c \<in> set cats. isLetter c \<Longrightarrow> takeWhile isLetter (cats @ CHR ''_'' # name) = cats"
  by (induction cats) (simp_all add: underscore_not_letter)

lemma dropWhile_letters:
  "\<forall>c \<in> set cats. isLetter c \<Longrightarrow> dropWhile isLetter (cats @ CHR ''_'' # name) = CHR ''_'' # name"
  by (induction cats) (simp_all add: underscore_not_letter)

lemma regex_match_here_grammar:
  assumes "isPolicyLetter p" and "\<forall>c \<in> set cats. isLetter c"
  shows "regex_match_here (CHR ''h'' # p # cats @ CHR ''_'' # name) =
         Some (p, if cats = [] then None else Some cats,
               takeWhile (\<lambda>c. \<not> isLineTerminator c) name)"
proof -
  have "regex_match_here (CHR ''h'' # p # cats @ CHR ''_'' # name) =
     (let cats' = takeWhile isLetter (cats @ CHR ''_'' # name)
      in case dropWhile isLetter (cats @ CHR ''_'' # name) of
           [] \<Rightarrow> None
         | u # name' \<Rightarrow>
             if u = CHR ''_''
             then Some (p, if cats' = [] then None else Some cats',
                        takeWhile (\<lambda>c. \<not> isLineTerminator c) name')
             else None)"
    using assms(1) by (simp only: regex_match_here.simps) simp
  then show ?thesis
    by (simp only: takeWhile_letters[OF assms(2)] dropWhile_letters[OF assms(2)] Let_def) simp
qed

lemma regex_exec_grammar:
  assumes "isPolicyLetter p" and "\<forall>c \<in> set cats. isLetter c"
  shows "HOOK_FUNC_REGEX_V2_exec (CHR ''h'' # p # cats @ CHR ''_'' # name) =
         Some (p, if cats = [] then None else Some cats,
               takeWhile (\<lambda>c. \<not> isLineTerminator c) name)"
  using regex_match_here_grammar[OF assms, of name] by simp

lemma regex_match_here_Some:
  assumes "regex_match_here s = Some m"
  shows "\<exists>p cats rest. s = CHR ''h'' # p # cats @ CHR ''_'' # rest \<and> isPolicyLetter p
           \<and> (\<forall>c \<in> set cats. isLetter c)"
proof (cases s)
  case Nil
  with assms show ?thesis by simp
next
  case (Cons h t)
  show ?thesis
  proof (cases t)
    case Nil
    with Cons assms show ?thesis by simp
  next
    case (Cons p rest)
    from assms have h: "h = CHR ''h''" and p: "isPolicyLetter p"
      unfolding \<open>s = h # t\<close> Cons by (auto split: if_splits)
    from assms obtain name where d: "dropWhile isLetter rest = CHR ''_'' # name"
      unfolding \<open>s = h # t\<close> Cons by (auto simp: Let_def split: if_splits list.splits)
    have "rest = takeWhile isLetter rest @ CHR ''_'' # name"
      using d takeWhile_dropWhile_id[of isLetter rest] by simp
    moreover have "\<forall>c \<in> set (takeWhile isLetter rest). isLetter c"
      by (auto dest: set_takeWhileD)
    ultimately show ?thesis using h p \<open>s = h # t\<close> Cons by blast
  qed
qed

lemma regex_exec_iff:
  "(HOOK_FUNC_REGEX_V2_exec s \<noteq> None) =
   (\<exists>pre p cats rest. s = pre @ CHR ''h'' # p # cats @ CHR ''_'' # rest \<and> isPolicyLetter p
       \<and> (\<forall>c \<in> set cats. isLetter c))"
proof
  assume "HOOK_FUNC_REGEX_V2_exec s \<noteq> None"
  then show "\<exists>pre p cats rest. s = pre @ CHR ''h'' # p # cats @ CHR ''_'' # rest
      \<and> isPolicyLetter p \<and> (\<forall>c \<in> set cats. isLetter c)"
  proof (induction s)
    case Nil
    then show ?case by simp
  next
    case (Cons c cs)
    show ?case
    proof (cases "regex_match_here (c # cs)")
      case (Some m)
      from regex_match_here_Some[OF Some] show ?thesis by (metis append_Nil)
    next
      case None
      with Cons.prems have "HOOK_FUNC_REGEX_V2_exec cs \<noteq> None" by simp
      from Cons.IH[OF this] obtain pre p cats rest where
        "cs = pre @ CHR ''h'' # p # cats @ CHR ''_'' # rest" "isPolicyLetter p"
        "\<forall>c \<in> set cats. isLetter c" by blast
      then have "c # cs = (c # pre) @ CHR ''h'' # p # cats @ CHR ''_'' # rest" by simp
      with \<open>isPolicyLetter p\<close> \<open>\<forall>c \<in> set cats. isLetter c\<close> show ?thesis by blast
    qed
  qed
next
  assume "\<exists>pre p cats rest. s = pre @ CHR ''h'' # p # cats @ CHR ''_'' # rest
      \<and> isPolicyLetter p \<and> (\<forall>c \<in> set cats. isLetter c)"
  then obtain pre p cats rest where s: "s = pre @ CHR ''h'' # p # cats @ CHR ''_'' # rest"
    and p: "isPolicyLetter p" and c: "\<forall>c \<in> set cats. isLetter c" by blast
  have "HOOK_FUNC_REGEX_V2_exec (pre @ CHR ''h'' # p # cats @ CHR ''_'' # rest) \<noteq> None"
  proof (induction pre)
    case Nil
    show ?case using regex_exec_grammar[OF p c, of rest] by simp
  next
    case (Cons a pre)
    then show ?case by (cases "regex_match_here (a # pre @ CHR ''h'' # p # cats @ CHR ''_'' # rest)") simp_all
  qed
  then show "HOOK_FUNC_REGEX_V2_exec s \<noteq> None" by (simp add: s)
qed

section \<open>Hook names: category masks\<close>

lemma bit_category_step:
  "bit ((acc :: 32 word) OR push_bit n 1) i = (bit acc i \<or> (i = n \<and> n < 32))"
  by (auto simp: bit_or_iff bit_push_bit_iff bit_1_iff bit_exp_iff)

lemma bit_foldl_categories:
  "bit (foldl (\<lambda>cat c. if 65 \<le> (of_char c :: nat) \<and> (of_char c :: nat) \<le> 90
                          then cat OR push_bit ((of_char c :: nat) - 65) 1 else cat)
               (acc :: 32 word) xs) i
   = (bit acc i \<or> (\<exists>c \<in> set xs. 65 \<le> (of_char c :: nat) \<and> (of_char c :: nat) \<le> 90
                                  \<and> (of_char c :: nat) = 65 + i))"
proof (induction xs arbitrary: acc)
  case Nil
  show ?case by simp
next
  case (Cons x xs)
  show ?case
    by (simp only: foldl_Cons Cons.IH bit_category_step list.set split: if_splits) auto
qed

lemma toUpperCase_letter:
  "isLetter c \<Longrightarrow> 65 \<le> (of_char (toUpperCase c) :: nat) \<and> (of_char (toUpperCase c) :: nat) \<le> 90"
  by (auto simp: isLetter_def toUpperCase_def Let_def)

lemma bit_decodeCategory:
  assumes "\<forall>c \<in> set l. isLetter c"
  shows "bit (decodeCategory (Some l)) i = (\<exists>c \<in> set l. (of_char (toUpperCase c) :: nat) = 65 + i)"
  using assms toUpperCase_letter
  by (auto simp add: decodeCategory_def bit_foldl_categories)

lemma bit_decodeCategory_bound:
  assumes "\<forall>c \<in> set l. isLetter c" and "bit (decodeCategory (Some l)) i"
  shows "i < 26"
proof -
  from assms obtain c where "c \<in> set l" "(of_char (toUpperCase c) :: nat) = 65 + i"
    by (auto simp: bit_decodeCategory)
  with assms(1) toUpperCase_letter[of c] show ?thesis by auto
qed

lemma decodeCategory_not_all:
  assumes "\<forall>c \<in> set l. isLetter c"
  shows "decodeCategory (Some l) \<noteq> - 1"
proof
  assume "decodeCategory (Some l) = - 1"
  then have "bit (decodeCategory (Some l)) 31" by simp
  with bit_decodeCategory_bound[OF assms] show False by fastforce
qed

lemma decodeCategory_some_bit:
  assumes "\<forall>c \<in> set l. isLetter c" and "l \<noteq> []"
  shows "\<exists>i < 26. bit (decodeCategory (Some l)) i"
proof -
  from assms(2) obtain c where c: "c \<in> set l" by (cases l) auto
  with assms(1) have "65 \<le> (of_char (toUpperCase c) :: nat)" "(of_char (toUpperCase c) :: nat) \<le> 90"
    using toUpperCase_letter by auto
  then have "(of_char (toUpperCase c) :: nat) = 65 + ((of_char (toUpperCase c) :: nat) - 65)"
    "(of_char (toUpperCase c) :: nat) - 65 < 26" by auto
  with c show ?thesis using bit_decodeCategory[OF assms(1)] by blast
qed

lemma upper_char_letter: "(i::nat) < 26 \<Longrightarrow> isLetter (char_of (65 + i))"
  by (simp add: isLetter_def)

lemma upper_char_toUpperCase:
  "(i::nat) < 26 \<Longrightarrow> toUpperCase (char_of (65 + i)) = char_of (65 + i)"
  by (simp add: toUpperCase_def)

lemma encode_categories_letters: "\<forall>c \<in> set (encode_categories m). isLetter c"
  by (auto simp: encode_categories_def upper_char_letter)

lemma encode_categories_roundtrip:
  assumes l: "\<forall>c \<in> set l. isLetter c" and ne: "l \<noteq> []"
  defines "m \<equiv> decodeCategory (Some l)"
  shows "encode_categories m \<noteq> []" and "decodeCategory (Some (encode_categories m)) = m"
proof -
  have m1: "m \<noteq> - 1" unfolding m_def by (rule decodeCategory_not_all[OF l])
  from decodeCategory_some_bit[OF l ne] obtain i where i: "i < 26" "bit m i"
    unfolding m_def by blast
  then have "i \<in> set (filter (bit m) [0..<26])" by simp
  then have "filter (bit m) [0..<26] \<noteq> []" by (metis empty_iff list.set(1))
  then show "encode_categories m \<noteq> []" using m1 by (simp add: encode_categories_def)
  show "decodeCategory (Some (encode_categories m)) = m"
  proof (rule bit_eqI)
    fix n
    have "bit (decodeCategory (Some (encode_categories m))) n =
        (\<exists>c \<in> set (encode_categories m). (of_char (toUpperCase c) :: nat) = 65 + n)"
      by (rule bit_decodeCategory[OF encode_categories_letters])
    also have "\<dots> = (\<exists>j. j < 26 \<and> bit m j \<and> (of_char (toUpperCase (char_of (65 + j))) :: nat) = 65 + n)"
      using m1 by (auto simp: encode_categories_def)
    also have "\<dots> = (\<exists>j. j < 26 \<and> bit m j \<and> j = n)"
      by (auto simp: upper_char_toUpperCase)
    also have "\<dots> = bit m n"
      using bit_decodeCategory_bound[OF l, of n] by (auto simp: m_def)
    finally show "bit (decodeCategory (Some (encode_categories m))) n = bit m n" .
  qed
qed

lemma encode_policy_letter: "isPolicyLetter (encode_policy p)"
  by (simp add: encode_policy_def isPolicyLetter_def)

lemma decode_encode_policy: "p \<le> 2 \<Longrightarrow> decode_policy (encode_policy p) = p"
  by (auto simp: decode_policy_def encode_policy_def toUpperCase_def Let_def)

lemma decode_policy_le: "decode_policy c \<le> 2"
  by (simp add: decode_policy_def Let_def)

section \<open>Hook names: decoding and re-encoding\<close>

lemma takeWhile_no_terminator:
  "\<forall>c \<in> set name. \<not> isLineTerminator c \<Longrightarrow> takeWhile (\<lambda>c. \<not> isLineTerminator c) name = name"
  by (induction name) simp_all

lemma decode_policy_letter:
  "isPolicyLetter p \<Longrightarrow>
   decode_policy p = (if p \<in> set ''Ss'' then 0 else if p \<in> set ''Ee'' then 1 else 2)"
proof -
  assume "isPolicyLetter p"
  then have "p = CHR ''A'' \<or> p = CHR ''S'' \<or> p = CHR ''E'' \<or> p = CHR ''a'' \<or> p = CHR ''s''
      \<or> p = CHR ''e''"
    by (simp add: isPolicyLetter_def)
  then show ?thesis
    by (elim disjE) (simp_all add: decode_policy_def toUpperCase_def char_of_eq_iff)
qed

lemma decodeName_encodeName:
  assumes p: "isPolicyLetter p" and l: "\<forall>c \<in> set cats. isLetter c"
  defines "m \<equiv> decodeCategory (if cats = [] then None else Some cats)"
  shows "decodeName (encodeName (decode_policy p, m, name)) =
         Some (decode_policy p, m, takeWhile (\<lambda>c. \<not> isLineTerminator c) name)"
proof -
  have e: "HOOK_FUNC_REGEX_V2_exec (encodeName (decode_policy p, m, name)) =
      Some (encode_policy (decode_policy p),
            if encode_categories m = [] then None else Some (encode_categories m),
            takeWhile (\<lambda>c. \<not> isLineTerminator c) name)"
    unfolding encodeName_def prod.case
    by (rule regex_exec_grammar[OF encode_policy_letter encode_categories_letters])
  have pol: "decode_policy (encode_policy (decode_policy p)) = decode_policy p"
    by (rule decode_encode_policy[OF decode_policy_le])
  have cm: "decodeCategory (if encode_categories m = [] then None else Some (encode_categories m)) = m"
  proof (cases "cats = []")
    case True
    then have "m = - 1" by (simp add: m_def decodeCategory_def)
    then show ?thesis by (simp add: encode_categories_def decodeCategory_def)
  next
    case False
    then have m: "m = decodeCategory (Some cats)" by (simp add: m_def)
    from encode_categories_roundtrip[OF l False] show ?thesis by (simp add: m)
  qed
  show ?thesis by (simp add: decodeName_def e pol cm)
qed

lemma hook_of_export_func:
  "hook_of_export sign prio (i, ExFunc f own) =
     (case HOOK_FUNC_REGEX_V2_exec i of
        None \<Rightarrow> None
      | Some (m1, m2, m3) \<Rightarrow>
          Some \<lparr>func = f, priority = JNum prio, src = sign, htype = m3,
                cat = decodeCategory m2, execPolicy = decode_policy m1\<rparr>)"
  by (simp add: hook_of_export_def split: option.splits)

section \<open>Loading a module: names that become hook functions\<close>

lemmas hook_eval =
  hook_of_export_func isPolicyLetter_def
  isLetter_def isLineTerminator_def toUpperCase_def decode_policy_def decodeCategory_def Let_def
  char_of_eq_iff

lemma getHooksFromModule_single:
  "hook_of_export sign (module_priority [x]) x = Some h \<Longrightarrow> getHooksFromModule [x] sign = [h]"
  by (simp add: getHooksFromModule_def List.map_filter_def)

text \<open>
  The loader writes the decoded properties onto the function object itself: a function
  exported under the two names \<open>hS_foo\<close> and \<open>hA_bar\<close> is pushed twice, and both elements
  of the returned array read the decoding of the name enumerated last.
\<close>

lemma aliased_export_last_decoding:
  "getHooksFromModule [(''hS_foo'', ExFunc f JUndefined), (''hA_bar'', ExFunc f JUndefined)]
     ''a.hook.js''
   = [\<lparr>func = f, priority = JNum 0, src = ''a.hook.js'', htype = ''bar'', cat = - 1,
        execPolicy = 2\<rparr>,
      \<lparr>func = f, priority = JNum 0, src = ''a.hook.js'', htype = ''bar'', cat = - 1,
        execPolicy = 2\<rparr>]"
  by (simp add: getHooksFromModule_def List.map_filter_def module_priority_def hook_eval)

text \<open>
  C7. The module \<open>a.hook.js\<close> exports one function. Under the name \<open>xhS_foo\<close>, and under
  the name \<open>fetchA_data\<close>, the name does not follow the scheme
  \<open>h<Type>[<Category>]_<hook_name>\<close>: it does not begin with the signature \<open>h\<close>.
  \<open>HOOK_FUNC_REGEX_V2\<close> has no anchor, so \<open>exec\<close> finds \<open>hS_foo\<close> and \<open>hA_data\<close> inside
  the names: the loader returns the function as a synchronous hook function of the hook
  \<open>foo\<close>, which the merge registers in the chain \<open>foo\<close>, and as an asynchronous hook
  function of the hook \<open>data\<close>.
\<close>

theorem unanchored_name_registered:
  "getHooksFromModule [(''xhS_foo'', ExFunc f JUndefined)] ''a.hook.js''
     = [\<lparr>func = f, priority = JNum 0, src = ''a.hook.js'', htype = ''foo'', cat = - 1,
          execPolicy = 0\<rparr>]
   \<and> reload_module ''a.hook.js'' [(''xhS_foo'', ExFunc f JUndefined)] []
     = [(''foo'', [\<lparr>func = f, priority = JNum 0, src = ''a.hook.js'', htype = ''foo'', cat = - 1,
                    execPolicy = 0\<rparr>])]
   \<and> getHooksFromModule [(''fetchA_data'', ExFunc f JUndefined)] ''a.hook.js''
     = [\<lparr>func = f, priority = JNum 0, src = ''a.hook.js'', htype = ''data'', cat = - 1,
          execPolicy = 2\<rparr>]"
proof -
  have a: "hook_of_export ''a.hook.js'' 0 (''xhS_foo'', ExFunc f JUndefined) =
      Some \<lparr>func = f, priority = JNum 0, src = ''a.hook.js'', htype = ''foo'', cat = - 1,
            execPolicy = 0\<rparr>"
    by (simp add: hook_eval)
  have b: "hook_of_export ''a.hook.js'' 0 (''fetchA_data'', ExFunc f JUndefined) =
      Some \<lparr>func = f, priority = JNum 0, src = ''a.hook.js'', htype = ''data'', cat = - 1,
            execPolicy = 2\<rparr>"
    by (simp add: hook_eval)
  have pa: "module_priority [(''xhS_foo'', ExFunc f JUndefined)] = 0"
    by (simp add: module_priority_def)
  have pb: "module_priority [(''fetchA_data'', ExFunc f JUndefined)] = 0"
    by (simp add: module_priority_def)
  have ga: "getHooksFromModule [(''xhS_foo'', ExFunc f JUndefined)] ''a.hook.js''
     = [\<lparr>func = f, priority = JNum 0, src = ''a.hook.js'', htype = ''foo'', cat = - 1,
          execPolicy = 0\<rparr>]"
    by (rule getHooksFromModule_single) (simp only: pa a)
  have gb: "getHooksFromModule [(''fetchA_data'', ExFunc f JUndefined)] ''a.hook.js''
     = [\<lparr>func = f, priority = JNum 0, src = ''a.hook.js'', htype = ''data'', cat = - 1,
          execPolicy = 2\<rparr>]"
    by (rule getHooksFromModule_single) (simp only: pb b)
  have m: "reload_module ''a.hook.js'' [(''xhS_foo'', ExFunc f JUndefined)] []
     = [(''foo'', [\<lparr>func = f, priority = JNum 0, src = ''a.hook.js'', htype = ''foo'', cat = - 1,
                    execPolicy = 0\<rparr>])]"
    by (simp add: reload_module_def ga mergeHooksIntoTable_def merge_pop_def setHook_def
        sort_by_priority_def)
  from ga m gb show ?thesis by simp
qed

section \<open>Loading and reloading modules\<close>

lemma delHooks_loop_noop: "delHooks_loop signature i hooks = hooks"
proof (induction signature i hooks rule: delHooks_loop.induct)
  case (1 signature i hooks)
  show ?case
    by (subst delHooks_loop.simps) (simp add: hooks_array_src_def "1.IH"(2))
qed

lemma delHooks_noop: "delHooks signature hooks = hooks"
  by (simp add: delHooks_def delHooks_loop_noop)

lemma hook_of_export_priority:
  "hook_of_export sign prio x = Some h \<Longrightarrow> priority h = JNum prio"
  by (cases x) (auto simp: hook_of_export_def split: option.splits export.splits)

lemma getHooks_loop_priority:
  "getHooks_loop sign prio md objs hooks = (objs', hooks') \<Longrightarrow>
   \<forall>f h. objs f = Some h \<longrightarrow> priority h = JNum prio \<Longrightarrow>
   \<forall>f h. objs' f = Some h \<longrightarrow> priority h = JNum prio"
proof (induction md arbitrary: objs hooks)
  case Nil
  then show ?case by simp
next
  case (Cons x md)
  show ?case
  proof (cases "hook_of_export sign prio x")
    case None
    with Cons.prems(1) have "getHooks_loop sign prio md objs hooks = (objs', hooks')" by simp
    from Cons.IH[OF this Cons.prems(2)] show ?thesis .
  next
    case (Some h)
    with Cons.prems(1) have
      "getHooks_loop sign prio md (objs(func h \<mapsto> h)) (hooks @ [func h]) = (objs', hooks')"
      by simp
    moreover have "\<forall>f h'. (objs(func h \<mapsto> h)) f = Some h' \<longrightarrow> priority h' = JNum prio"
      using Cons.prems(2) hook_of_export_priority[OF Some] by auto
    ultimately show ?thesis by (rule Cons.IH)
  qed
qed

lemma getHooksFromModule_priority:
  "h \<in> set (getHooksFromModule md sign) \<Longrightarrow> priority h = JNum (module_priority md)"
proof -
  assume a: "h \<in> set (getHooksFromModule md sign)"
  obtain objs hooks where
    l: "getHooks_loop sign (module_priority md) md Map.empty [] = (objs, hooks)"
    by (cases "getHooks_loop sign (module_priority md) md Map.empty []") auto
  from a l obtain f where "objs f = Some h"
    by (auto simp: getHooksFromModule_def List.map_filter_def)
  with getHooks_loop_priority[OF l] show ?thesis by simp
qed

lemma hook_of_export_value: "hook_of_export sign prio (i, ExVal v) = None"
  by (simp add: hook_of_export_def split: option.splits)

lemma echo_hook:
  "hook_of_export ''echo.hook.js'' prio (''hS_foo.bar$'', ExFunc () (JNum 5)) =
     Some \<lparr>func = (), priority = JNum prio, src = ''echo.hook.js'', htype = ''foo.bar$'',
           cat = - 1, execPolicy = 0\<rparr>"
  by (simp add: hook_eval)

lemma bar_hook:
  "hook_of_export ''a.hook.js'' prio (''hS_bar'', ExFunc (3::nat) JUndefined) =
     Some \<lparr>func = 3, priority = JNum prio, src = ''a.hook.js'', htype = ''bar'',
           cat = - 1, execPolicy = 0\<rparr>"
  by (simp add: hook_eval)

lemma priority_not_hook: "HOOK_FUNC_REGEX_V2_exec ''priority'' = None"
  by (simp add: isPolicyLetter_def)

text \<open>
  C6. The example module of the repository exports \<open>hS_foo.bar$\<close> with its own
  \<open>priority = 5\<close>. The loader tests \<open>typeof mod[i] != "number"\<close>, the type of the function
  and not of its \<open>priority\<close>, so it overwrites the declared priority with the module-wide
  default: 0 when the module declares none, 3 when it exports \<open>priority = 3\<close>.
\<close>

theorem declared_priority_overwritten:
  "map priority (getHooksFromModule [(''hS_foo.bar$'', ExFunc () (JNum 5))] ''echo.hook.js'')
     = [JNum 0]
   \<and> map priority (getHooksFromModule
         [(''priority'', ExVal (JNum 3)), (''hS_foo.bar$'', ExFunc () (JNum 5))] ''echo.hook.js'')
     = [JNum 3]"
  by (simp add: getHooksFromModule_def List.map_filter_def module_priority_def echo_hook
      hook_of_export_value)

text \<open>
  C5. The chain \<open>foo\<close> holds a function of the module \<open>a.hook.js\<close>. The module is reloaded
  and now exports only \<open>hS_bar\<close>. \<open>delHooks\<close> removes nothing, so the function that the
  module no longer exports is still in the chain \<open>foo\<close> after the reload.
\<close>

theorem reload_keeps_removed_function:
  "reload_module ''a.hook.js'' [(''hS_bar'', ExFunc (3::nat) JUndefined)]
     [(''foo'', [\<lparr>func = 2, priority = JNum 0, src = ''a.hook.js'', htype = ''foo'',
                  cat = - 1, execPolicy = 0\<rparr>])]
   = [(''foo'', [\<lparr>func = 2, priority = JNum 0, src = ''a.hook.js'', htype = ''foo'',
                  cat = - 1, execPolicy = 0\<rparr>]),
      (''bar'', [\<lparr>func = 3, priority = JNum 0, src = ''a.hook.js'', htype = ''bar'',
                  cat = - 1, execPolicy = 0\<rparr>])]"
  by (simp add: reload_module_def mergeHooksIntoTable_def merge_pop_def delHooks_noop
      getHooksFromModule_def List.map_filter_def module_priority_def bar_hook setHook_def
      sort_by_priority_def)

section \<open>Running a chain: category matching\<close>









text \<open>
  C4. The server calls a chain with the arguments \<open>(params, headers, data)\<close>. The chain
  holds an ASYNC function and then a SYNC function. The call invokes the ASYNC function with
  the three arguments and suspends with \<open>_nextHook = 1\<close>. When the continuation is invoked
  with 7, the resumed call spreads the argument array into its own parameters, so its
  \<open>args\<close> is the first argument alone: the SYNC function at index 1 receives no arguments
  instead of the three of the original invocation. With a number as first argument the
  resumed call raises a TypeError instead of running the function.
\<close>

theorem resumed_chain_loses_arguments:
  "(case callHook example_async_sync (- 1) [JObj, JObj, JNull] of
      (st, ctx, tr) \<Rightarrow>
        st = Suspended \<and> nextHook ctx = 1 \<and> tr = [(0, [JObj, JObj, JNull])]
        \<and> (case callback example_async_sync (- 1) ctx (JArr [JObj, JObj, JNull]) (JNum 7) of
              (st', ctx', tr') \<Rightarrow>
                st' = Finished \<and> tr' = [(1, [])] \<and> lastResult ctx' = JArr []))
   \<and> (case callHook example_async_sync (- 1) [JNum 1, JNum 2] of
        (st, ctx, tr) \<Rightarrow>
          st = Suspended
          \<and> fst (callback example_async_sync (- 1) ctx (JArr [JNum 1, JNum 2]) (JNum 7)) = Threw)"
  by (simp add: callHook_def callback_def call_def createContext_def example_async_sync_def
      example_hook_def inclusiveMatchFunc_def)

section \<open>Rendering a hook response\<close>

lemma render_data_stor:
  "stor_call (render_data env now hosts url status proto) =
     (case rp_entityTag proto of
        FStr t \<Rightarrow>
          if validHeader env t
          then (case rp_data proto of
                  FBytes bs \<Rightarrow>
                    Some (cache_key hosts url, proto, int (length bs),
                          js_add (Num now) (js_mul (field_to_number env (rp_maxAge proto)) (Num 1000)))
                | FStr s \<Rightarrow>
                    Some (cache_key hosts url, proto\<lparr>rp_data := FBytes (utf8_bytes s)\<rparr>,
                          int (length s),
                          js_add (Num now) (js_mul (field_to_number env (rp_maxAge proto)) (Num 1000)))
                | _ \<Rightarrow> None)
          else None
      | _ \<Rightarrow> None)"
  by (cases "rp_entityTag proto"; cases "rp_data proto")
    (simp_all add: render_data_def stor_call_def Let_def utf8_bytes_def)

lemma handleHookResponse_stor:
  "stor_call (handleHookResponse env now hosts url error (Some proto)) =
     (if rp_error proto then None
      else case rp_status proto of
             FNum n \<Rightarrow>
               if 100 \<le> n \<and> n < 600 \<and> (field_truthy (rp_data proto) \<or> field_is_null (rp_data proto))
               then stor_call (render_data env now hosts url n proto)
               else None
           | _ \<Rightarrow> None)"
  by (cases "rp_status proto"; cases "rp_manual proto")
    (simp_all add: handleHookResponse_def stor_call_def)

text \<open>
  C2 (as amended). Rendering a hook response calls \<open>stor\<close> iff the descriptor carries no
  error, its status is a number in [100,600), its body is bytes or a non-empty string, and
  its \<open>entityTag\<close> is a string that the platform accepts as a header value; \<open>maxAge\<close> does
  not enter the decision. The call has the key \<open>site.hosts[0] + "$" + request.url\<close>, the
  descriptor with its body as bytes, the byte length of the body as size, and, when
  \<open>maxAge\<close> is a number, the current time plus \<open>maxAge\<close> seconds as expiry.
\<close>

theorem cache_insertion_condition:
  "((stor_call (handleHookResponse env now hosts url error (Some proto)) \<noteq> None) =
      (\<not> rp_error proto \<and> (\<exists>n. rp_status proto = FNum n \<and> 100 \<le> n \<and> n < 600)
       \<and> ((\<exists>bs. rp_data proto = FBytes bs) \<or> (\<exists>s. rp_data proto = FStr s \<and> s \<noteq> []))
       \<and> (\<exists>t. rp_entityTag proto = FStr t \<and> validHeader env t)))
   \<and> (\<forall>k d sz e.
         stor_call (handleHookResponse env now hosts url error (Some proto)) = Some (k, d, sz, e)
         \<longrightarrow> k = cache_key hosts url
             \<and> sz = body_length (rp_data proto)
             \<and> (\<exists>bs. rp_data d = FBytes bs \<and> int (length bs) = sz \<and> d = proto\<lparr>rp_data := FBytes bs\<rparr>)
             \<and> (\<forall>a. rp_maxAge proto = FNum a \<longrightarrow> e = Num (now + a * 1000)))"
proof (intro conjI allI impI)
  show "(stor_call (handleHookResponse env now hosts url error (Some proto)) \<noteq> None) =
      (\<not> rp_error proto \<and> (\<exists>n. rp_status proto = FNum n \<and> 100 \<le> n \<and> n < 600)
       \<and> ((\<exists>bs. rp_data proto = FBytes bs) \<or> (\<exists>s. rp_data proto = FStr s \<and> s \<noteq> []))
       \<and> (\<exists>t. rp_entityTag proto = FStr t \<and> validHeader env t))"
    by (cases "rp_status proto"; cases "rp_entityTag proto"; cases "rp_data proto")
      (auto simp add: handleHookResponse_stor render_data_stor)
next
  fix k d sz e
  assume a: "stor_call (handleHookResponse env now hosts url error (Some proto)) = Some (k, d, sz, e)"
  then obtain n where n: "rp_status proto = FNum n"
    and r: "stor_call (render_data env now hosts url n proto) = Some (k, d, sz, e)"
    by (cases "rp_status proto") (auto simp: handleHookResponse_stor split: if_splits)
  from r obtain t where t: "rp_entityTag proto = FStr t"
    by (cases "rp_entityTag proto") (simp_all add: render_data_stor)
  from r t have v: "validHeader env t"
    by (simp add: render_data_stor split: if_splits)
  have "k = cache_key hosts url \<and> sz = body_length (rp_data proto)
      \<and> (\<exists>bs. rp_data d = FBytes bs \<and> int (length bs) = sz \<and> d = proto\<lparr>rp_data := FBytes bs\<rparr>)
      \<and> e = js_add (Num now) (js_mul (field_to_number env (rp_maxAge proto)) (Num 1000))"
    using r t v by (cases "rp_data proto") (auto simp: render_data_stor utf8_bytes_def)
  then have c: "k = cache_key hosts url" "sz = body_length (rp_data proto)"
    "\<exists>bs. rp_data d = FBytes bs \<and> int (length bs) = sz \<and> d = proto\<lparr>rp_data := FBytes bs\<rparr>"
    "e = js_add (Num now) (js_mul (field_to_number env (rp_maxAge proto)) (Num 1000))"
    by blast+
  show "k = cache_key hosts url" by (rule c(1))
  show "sz = body_length (rp_data proto)" by (rule c(2))
  show "\<exists>bs. rp_data d = FBytes bs \<and> int (length bs) = sz \<and> d = proto\<lparr>rp_data := FBytes bs\<rparr>"
    by (rule c(3))
  show "\<And>a. rp_maxAge proto = FNum a \<Longrightarrow> e = Num (now + a * 1000)"
    by (simp add: c(4))
qed

text \<open>
  C2 as stated fails in both directions: a descriptor with status 200, a string entity tag,
  \<open>maxAge = 300\<close> and the empty string as body is not inserted, and a descriptor whose
  \<open>maxAge\<close> is undefined is inserted, with the expiry NaN.
\<close>

theorem empty_body_or_missing_maxAge:
  "stor_call (handleHookResponse example_env 1000 [''example.org''] ''/'' False
       (Some (example_proto (FStr []) (FNum 300)))) = None
   \<and> stor_call (handleHookResponse example_env 1000 [''example.org''] ''/'' False
       (Some (example_proto (FStr ''hi'') FUndefined)))
     = Some (''example.org$/'', example_proto (FBytes [104, 105]) FUndefined, 2, NaN)"
  by (simp add: handleHookResponse_stor render_data_stor example_proto_def example_env_def
      cache_key_def utf8_bytes_def)

lemma example_stor_call:
  "stor_call (handleHookResponse example_env 1000 [''example.org''] ''/'' False
       (Some (example_proto (FStr ''hi'') (FNum 300))))
   = Some (''example.org$/'', example_proto (FBytes [104, 105]) (FNum 300), 2, Num 301000)"
  by (simp add: handleHookResponse_stor render_data_stor example_proto_def example_env_def
      cache_key_def utf8_bytes_def)

lemma example_stor:
  "\<exists>c. stor ''example.org$/'' d 2 (Num 301000) (ResponseCache_new 1000) = Some c
      \<and> lru_keys c = [''example.org$/''] \<and> csize c = 2"
  by (simp add: cache_eval)

theorem cache_insertion_condition_witness:
  "\<exists>d. stor_call (handleHookResponse example_env 1000 [''example.org''] ''/'' False
       (Some (example_proto (FStr ''hi'') (FNum 300))))
     = Some (''example.org$/'', d, 2, Num (1000 + 300 * 1000))
   \<and> rp_data d = FBytes [104, 105]
   \<and> (\<exists>c. cache_after (handleHookResponse example_env 1000 [''example.org''] ''/'' False
              (Some (example_proto (FStr ''hi'') (FNum 300)))) (ResponseCache_new 1000) = Some c
          \<and> lru_keys c = [''example.org$/''] \<and> csize c = 2)"
proof -
  define d where "d = example_proto (FBytes [104, 105]) (FNum 300)"
  note ev = example_stor_call[folded d_def]
  note t = cache_insertion_condition[of example_env 1000 "[''example.org'']" "''/''" False
      "example_proto (FStr ''hi'') (FNum 300)", THEN conjunct2, rule_format, OF ev]
  have f: "\<forall>a. rp_maxAge (example_proto (FStr ''hi'') (FNum 300)) = FNum a
      \<longrightarrow> Num 301000 = Num (1000 + a * 1000)"
    using t by simp
  have a: "rp_maxAge (example_proto (FStr ''hi'') (FNum 300)) = FNum 300"
    by (simp add: example_proto_def)
  have e: "Num 301000 = Num (1000 + 300 * 1000)"
    using f[rule_format, OF a] .
  have r: "rp_data d = FBytes [104, 105]" by (simp add: d_def example_proto_def)
  have ca: "cache_after (handleHookResponse example_env 1000 [''example.org''] ''/'' False
              (Some (example_proto (FStr ''hi'') (FNum 300)))) (ResponseCache_new 1000)
      = stor ''example.org$/'' d 2 (Num 301000) (ResponseCache_new 1000)"
    by (simp only: cache_after_def ev option.case prod.case)
  have c: "\<exists>c. cache_after (handleHookResponse example_env 1000 [''example.org''] ''/'' False
              (Some (example_proto (FStr ''hi'') (FNum 300)))) (ResponseCache_new 1000) = Some c
          \<and> lru_keys c = [''example.org$/''] \<and> csize c = 2"
    unfolding ca by (rule example_stor)
  have s: "stor_call (handleHookResponse example_env 1000 [''example.org''] ''/'' False
       (Some (example_proto (FStr ''hi'') (FNum 300))))
     = Some (''example.org$/'', d, 2, Num (1000 + 300 * 1000))"
    using ev unfolding e[symmetric] .
  from s r c show ?thesis by blast
qed

end
